theory Spec2Isabelle
  imports Complex_Main
begin

section \<open>Conventions\<close>

text \<open>
  The primitives are TypeScript closures over mutable variables. Each closure becomes a
  record of the captured variables, and each method a function from the record to the
  result and the updated record. A clock reading is an \<open>int\<close> of milliseconds and is
  passed to the operation that reads the clock.

  The requested concurrency of the semaphore and the requested size of the cache are
  JavaScript numbers with \<open>NaN\<close> and the infinities (\<open>js_number\<close>; rounding is left out).
  The other configuration numbers (the cache's \<open>ttlMs\<close>, the limiter's, the breaker's and
  the throttle's parameters) are finite numbers, \<open>real\<close>, so that \<open>Math.floor\<close> is \<open>floor\<close>.
\<close>

section \<open>JavaScript numbers as limits\<close>

datatype js_number = Number real | PosInfinity | NegInfinity | NaN

text \<open>
  The values \<open>Math.max(1, Math.floor(x))\<close> can take: a positive integer, \<open>Infinity\<close> (from
  \<open>Infinity\<close>), or \<open>NaN\<close> (from \<open>NaN\<close>: \<open>Math.floor(NaN)\<close> is \<open>NaN\<close> and \<open>Math.max\<close> returns
  \<open>NaN\<close> when an argument is \<open>NaN\<close>). \<open>-Infinity\<close> is clamped to 1.
\<close>

datatype js_limit = Limit nat | Unlimited | NotANumber

definition max_1_floor :: "js_number \<Rightarrow> js_limit" where
  "max_1_floor x =
     (case x of
        Number r \<Rightarrow> Limit (nat (max 1 \<lfloor>r\<rfloor>))
      | PosInfinity \<Rightarrow> Unlimited
      | NegInfinity \<Rightarrow> Limit 1
      | NaN \<Rightarrow> NotANumber)"

text \<open>
  The comparisons \<open>n < l\<close>, \<open>n > l\<close> and \<open>n <= l\<close> of an integer with such a value; every
  comparison with \<open>NaN\<close> is false.
\<close>

fun lt_limit :: "int \<Rightarrow> js_limit \<Rightarrow> bool" where
  "lt_limit n (Limit k) = (n < int k)"
| "lt_limit n Unlimited = True"
| "lt_limit n NotANumber = False"

fun gt_limit :: "int \<Rightarrow> js_limit \<Rightarrow> bool" where
  "gt_limit n (Limit k) = (n > int k)"
| "gt_limit n Unlimited = False"
| "gt_limit n NotANumber = False"

fun le_limit :: "int \<Rightarrow> js_limit \<Rightarrow> bool" where
  "le_limit n (Limit k) = (n \<le> int k)"
| "le_limit n Unlimited = True"
| "le_limit n NotANumber = False"

section \<open>LRU cache with TTL: \<open>src/infra/lru-cache.ts\<close>\<close>

subsection \<open>The JavaScript \<open>Map\<close> in insertion order\<close>

text \<open>
  A \<open>Map\<close> iterates in insertion order, \<open>set\<close> on a present key keeps the key's position,
  and \<open>delete\<close> reports whether the key was there. It is an association list, oldest first.
\<close>

record 'v Entry =
  entry_value :: 'v
  expiresAt :: int

type_synonym 'v entry_map = "(string \<times> 'v Entry) list"

definition Map_has :: "'v entry_map \<Rightarrow> string \<Rightarrow> bool" where
  "Map_has m k = (k \<in> fst ` set m)"

definition Map_get :: "'v entry_map \<Rightarrow> string \<Rightarrow> 'v Entry option" where
  "Map_get m k = map_of m k"

definition Map_delete :: "string \<Rightarrow> 'v entry_map \<Rightarrow> bool \<times> 'v entry_map" where
  "Map_delete k m = (Map_has m k, filter (\<lambda>p. fst p \<noteq> k) m)"

definition Map_set :: "string \<Rightarrow> 'v Entry \<Rightarrow> 'v entry_map \<Rightarrow> 'v entry_map" where
  "Map_set k e m =
     (if Map_has m k then map (\<lambda>p. if fst p = k then (k, e) else p) m else m @ [(k, e)])"

definition Map_keys :: "'v entry_map \<Rightarrow> string list" where
  "Map_keys m = map fst m"

subsection \<open>The cache\<close>

record 'v LruCache =
  maxSize :: js_limit
  ttlMs :: int
  entries :: "'v entry_map"

text \<open>
  \<open>maxSize = Math.max(1, Math.floor(options.maxSize))\<close>; \<open>ttlMs\<close> is optional, and anything
  not above zero disables expiry.
\<close>

definition createLruCache :: "js_number \<Rightarrow> real option \<Rightarrow> 'v LruCache" where
  "createLruCache optMaxSize optTtlMs =
     \<lparr> maxSize = max_1_floor optMaxSize,
       ttlMs = (case optTtlMs of None \<Rightarrow> 0 | Some t \<Rightarrow> if t > 0 then \<lfloor>t\<rfloor> else 0),
       entries = [] \<rparr>"

definition isExpired :: "int \<Rightarrow> 'v Entry \<Rightarrow> bool" where
  "isExpired now entry = (expiresAt entry > 0 \<and> now \<ge> expiresAt entry)"

definition touch :: "string \<Rightarrow> 'v Entry \<Rightarrow> 'v entry_map \<Rightarrow> 'v entry_map" where
  "touch key entry m = Map_set key entry (snd (Map_delete key m))"

definition evictOldest :: "'v entry_map \<Rightarrow> 'v entry_map" where
  "evictOldest m = (case m of [] \<Rightarrow> [] | oldest # _ \<Rightarrow> snd (Map_delete (fst oldest) m))"

lemma length_evictOldest: "m \<noteq> [] \<Longrightarrow> length (evictOldest m) < length m"
  by (cases m) (simp_all add: evictOldest_def Map_delete_def le_imp_less_Suc)

lemma gt_limit_nonempty: "gt_limit (int (length m)) n \<Longrightarrow> m \<noteq> []"
  by (cases n) auto

text \<open>The loop \<open>while (map.size > maxSize) evictOldest()\<close> of \<open>set\<close>.\<close>

function evict_while :: "js_limit \<Rightarrow> 'v entry_map \<Rightarrow> 'v entry_map" where
  "evict_while n m =
     (if gt_limit (int (length m)) n then evict_while n (evictOldest m) else m)"
  by pat_completeness auto
termination
proof (relation "measure (\<lambda>(n, m). length m)")
  show "wf (measure (\<lambda>(n :: js_limit, m :: 'v entry_map). length m))" by simp
next
  fix n :: js_limit and m :: "'v entry_map"
  assume "gt_limit (int (length m)) n"
  then have "m \<noteq> []" by (rule gt_limit_nonempty)
  then show "((n, evictOldest m), (n, m)) \<in> measure (\<lambda>(n, m). length m)"
    by (simp add: length_evictOldest)
qed

declare evict_while.simps [simp del]

definition get_lru :: "int \<Rightarrow> string \<Rightarrow> 'v LruCache \<Rightarrow> 'v option \<times> 'v LruCache" where
  "get_lru now key c =
     (case Map_get (entries c) key of
        None \<Rightarrow> (None, c)
      | Some entry \<Rightarrow>
          if isExpired now entry
          then (None, c\<lparr>entries := snd (Map_delete key (entries c))\<rparr>)
          else (Some (entry_value entry), c\<lparr>entries := touch key entry (entries c)\<rparr>))"

definition set_lru :: "int \<Rightarrow> string \<Rightarrow> 'v \<Rightarrow> 'v LruCache \<Rightarrow> 'v LruCache" where
  "set_lru now key v c =
     (let m1 = (case Map_get (entries c) key of
                  None \<Rightarrow> entries c
                | Some existing \<Rightarrow> snd (Map_delete key (entries c)));
          e = (if ttlMs c > 0 then now + ttlMs c else 0);
          m2 = Map_set key \<lparr>entry_value = v, expiresAt = e\<rparr> m1
      in c\<lparr>entries := evict_while (maxSize c) m2\<rparr>)"

definition has_lru :: "int \<Rightarrow> string \<Rightarrow> 'v LruCache \<Rightarrow> bool \<times> 'v LruCache" where
  "has_lru now key c =
     (case Map_get (entries c) key of
        None \<Rightarrow> (False, c)
      | Some entry \<Rightarrow>
          if isExpired now entry
          then (False, c\<lparr>entries := snd (Map_delete key (entries c))\<rparr>)
          else (True, c))"

definition delete_lru :: "string \<Rightarrow> 'v LruCache \<Rightarrow> bool \<times> 'v LruCache" where
  "delete_lru key c =
     (fst (Map_delete key (entries c)), c\<lparr>entries := snd (Map_delete key (entries c))\<rparr>)"

definition clear_lru :: "'v LruCache \<Rightarrow> 'v LruCache" where
  "clear_lru c = c\<lparr>entries := []\<rparr>"

definition size_lru :: "'v LruCache \<Rightarrow> nat" where
  "size_lru c = length (entries c)"

definition keys_lru :: "'v LruCache \<Rightarrow> string list" where
  "keys_lru c = Map_keys (entries c)"

text \<open>A call of one of the mutating methods, with the clock reading it sees.\<close>

datatype 'v lru_op = Set string 'v | Get string | Has string | Delete string | Clear

fun apply_lru :: "int \<times> 'v lru_op \<Rightarrow> 'v LruCache \<Rightarrow> 'v LruCache" where
  "apply_lru (now, Set k v) c = set_lru now k v c"
| "apply_lru (now, Get k) c = snd (get_lru now k c)"
| "apply_lru (now, Has k) c = snd (has_lru now k c)"
| "apply_lru (now, Delete k) c = snd (delete_lru k c)"
| "apply_lru (now, Clear) c = clear_lru c"

definition run_lru :: "(int \<times> 'v lru_op) list \<Rightarrow> 'v LruCache \<Rightarrow> 'v LruCache" where
  "run_lru ops c = fold apply_lru ops c"

text \<open>
  The cache of the TTL test: \<open>ttlMs = 5000\<close>, key \<open>a\<close> stored at clock reading 1000.
\<close>

definition expired_cache :: "nat LruCache" where
  "expired_cache = set_lru 1000 ''a'' 1 (createLruCache (Number 10) (Some 5000))"

section \<open>Sliding-window rate limiter: \<open>src/infra/sliding-window-rate-limit.ts\<close>\<close>

text \<open>
  The repository holds two versions of \<open>createSlidingWindowRateLimiter\<close>: one keeps the
  accepted timestamps in an array and removes expired ones with \<open>shift()\<close>, the other
  keeps a buffer with a logical head index and compacts it. Both normalise their
  parameters in the same way: \<open>maxRequests\<close> and \<open>windowMs\<close> are
  \<open>Math.max(1, Math.floor(...))\<close>.
\<close>

record RateConfig =
  maxRequests :: nat
  windowMs :: int


text \<open>
  The result of \<open>consume\<close>. \<open>retryAfterMs\<close> is \<open>None\<close> where JavaScript computes \<open>NaN\<close>:
  reading index 0 of an empty array gives \<open>undefined\<close>, and arithmetic on it \<open>NaN\<close>.
\<close>

record ConsumeResult =
  allowed :: bool
  retryAfterMs :: "int option"
  remaining :: int

definition js_index :: "int list \<Rightarrow> nat \<Rightarrow> int option" where
  "js_index xs i = (if i < length xs then Some (xs ! i) else None)"

definition retry_after :: "RateConfig \<Rightarrow> int \<Rightarrow> int option \<Rightarrow> int option" where
  "retry_after cfg nowMs oldest = map_option (\<lambda>t. max 0 (t + windowMs cfg - nowMs)) oldest"

subsection \<open>The array version\<close>

text \<open>\<open>while (timestamps.length > 0 && timestamps[0] < cutoff) timestamps.shift()\<close>\<close>

fun shift_while :: "int \<Rightarrow> int list \<Rightarrow> int list" where
  "shift_while cutoff [] = []"
| "shift_while cutoff (t # ts) = (if t < cutoff then shift_while cutoff ts else t # ts)"

definition prune :: "RateConfig \<Rightarrow> int \<Rightarrow> int list \<Rightarrow> int list" where
  "prune cfg nowMs timestamps = shift_while (nowMs - windowMs cfg) timestamps"

definition consume :: "RateConfig \<Rightarrow> int \<Rightarrow> int list \<Rightarrow> ConsumeResult \<times> int list" where
  "consume cfg nowMs timestamps =
     (let ts = prune cfg nowMs timestamps in
      if length ts \<ge> maxRequests cfg
      then (\<lparr> allowed = False,
              retryAfterMs = retry_after cfg nowMs (js_index ts 0),
              remaining = 0 \<rparr>, ts)
      else (\<lparr> allowed = True,
              retryAfterMs = Some 0,
              remaining = max 0 (int (maxRequests cfg) - int (length (ts @ [nowMs]))) \<rparr>,
            ts @ [nowMs]))"

definition reset :: "int list \<Rightarrow> int list" where
  "reset timestamps = []"

definition count :: "RateConfig \<Rightarrow> int \<Rightarrow> int list \<Rightarrow> int \<times> int list" where
  "count cfg nowMs timestamps =
     (int (length (prune cfg nowMs timestamps)), prune cfg nowMs timestamps)"

subsection \<open>The ring-buffer version\<close>

record Ring =
  buf :: "int list"
  head :: nat

lemma advance_head_measure: "h < length b \<Longrightarrow> length b - Suc h < length b - h"
  by arith

text \<open>\<open>while (head < buf.length && buf[head] < cutoff) head += 1\<close>\<close>

function advance_head :: "int \<Rightarrow> int list \<Rightarrow> nat \<Rightarrow> nat" where
  "advance_head cutoff b h =
     (if h < length b \<and> b ! h < cutoff then advance_head cutoff b (h + 1) else h)"
  by pat_completeness auto
termination
  by (relation "measure (\<lambda>(cutoff, b, h). length b - h)") (simp_all add: advance_head_measure)

declare advance_head.simps [simp del]

text \<open>
  After the loop the buffer is compacted when more than half of it is dead space;
  \<open>buf.length / 2\<close> is a division of JavaScript numbers, not an integer division.
\<close>

definition prune_ring :: "RateConfig \<Rightarrow> int \<Rightarrow> Ring \<Rightarrow> Ring" where
  "prune_ring cfg nowMs r =
     (let h = advance_head (nowMs - windowMs cfg) (buf r) (head r) in
      if h > 0 \<and> real h > real (length (buf r)) / 2
      then \<lparr> buf = drop h (buf r), head = 0 \<rparr>
      else \<lparr> buf = buf r, head = h \<rparr>)"

definition activeCount_ring :: "Ring \<Rightarrow> int" where
  "activeCount_ring r = int (length (buf r)) - int (head r)"

definition consume_ring :: "RateConfig \<Rightarrow> int \<Rightarrow> Ring \<Rightarrow> ConsumeResult \<times> Ring" where
  "consume_ring cfg nowMs r0 =
     (let r = prune_ring cfg nowMs r0 in
      if activeCount_ring r \<ge> int (maxRequests cfg)
      then (\<lparr> allowed = False,
              retryAfterMs = retry_after cfg nowMs (js_index (buf r) (head r)),
              remaining = 0 \<rparr>, r)
      else (\<lparr> allowed = True,
              retryAfterMs = Some 0,
              remaining =
                max 0 (int (maxRequests cfg) - activeCount_ring (r\<lparr>buf := buf r @ [nowMs]\<rparr>)) \<rparr>,
            r\<lparr>buf := buf r @ [nowMs]\<rparr>))"

definition reset_ring :: "Ring \<Rightarrow> Ring" where
  "reset_ring r = \<lparr> buf = [], head = 0 \<rparr>"

definition count_ring :: "RateConfig \<Rightarrow> int \<Rightarrow> Ring \<Rightarrow> int \<times> Ring" where
  "count_ring cfg nowMs r = (activeCount_ring (prune_ring cfg nowMs r), prune_ring cfg nowMs r)"

subsection \<open>Sequences of calls\<close>

text \<open>
  A call of the limiter and what it returns. \<open>consume\<close> and \<open>count\<close> read the clock once;
  the reading is part of the call.
\<close>

datatype rate_call = Consume int | Reset | Count int

datatype rate_output = Consumed ConsumeResult | ResetDone | Counted int

fun call_array :: "RateConfig \<Rightarrow> rate_call \<Rightarrow> int list \<Rightarrow> rate_output \<times> int list" where
  "call_array cfg (Consume nowMs) ts = (Consumed (fst (consume cfg nowMs ts)), snd (consume cfg nowMs ts))"
| "call_array cfg Reset ts = (ResetDone, reset ts)"
| "call_array cfg (Count nowMs) ts = (Counted (fst (count cfg nowMs ts)), snd (count cfg nowMs ts))"

fun call_ring :: "RateConfig \<Rightarrow> rate_call \<Rightarrow> Ring \<Rightarrow> rate_output \<times> Ring" where
  "call_ring cfg (Consume nowMs) r = (Consumed (fst (consume_ring cfg nowMs r)), snd (consume_ring cfg nowMs r))"
| "call_ring cfg Reset r = (ResetDone, reset_ring r)"
| "call_ring cfg (Count nowMs) r = (Counted (fst (count_ring cfg nowMs r)), snd (count_ring cfg nowMs r))"

fun run_array :: "RateConfig \<Rightarrow> rate_call list \<Rightarrow> int list \<Rightarrow> rate_output list \<times> int list" where
  "run_array cfg [] ts = ([], ts)"
| "run_array cfg (c # cs) ts =
     (fst (call_array cfg c ts) # fst (run_array cfg cs (snd (call_array cfg c ts))),
      snd (run_array cfg cs (snd (call_array cfg c ts))))"

fun run_ring :: "RateConfig \<Rightarrow> rate_call list \<Rightarrow> Ring \<Rightarrow> rate_output list \<times> Ring" where
  "run_ring cfg [] r = ([], r)"
| "run_ring cfg (c # cs) r =
     (fst (call_ring cfg c r) # fst (run_ring cfg cs (snd (call_ring cfg c r))),
      snd (run_ring cfg cs (snd (call_ring cfg c r))))"


text \<open>The timestamps a ring buffer holds: the part of the buffer from the head on.\<close>

definition live :: "Ring \<Rightarrow> int list" where
  "live r = drop (head r) (buf r)"

text \<open>
  The array version and the ring-buffer version hold the same log: the array is the live
  part of the buffer, and the head never passes the end of the buffer.
\<close>

definition sim :: "int list \<Rightarrow> Ring \<Rightarrow> bool" where
  "sim ts r = (ts = live r \<and> head r \<le> length (buf r))"


section \<open>Circuit breaker: \<open>src/infra/circuit-breaker.ts\<close>\<close>

datatype CircuitBreakerState = Closed | Open | HalfOpen

record CircuitBreaker =
  failureThreshold :: int
  resetTimeoutMs :: int
  state :: CircuitBreakerState
  consecutiveFailures :: int
  openedAt :: int

definition createCircuitBreaker :: "real \<Rightarrow> real \<Rightarrow> CircuitBreaker" where
  "createCircuitBreaker optFailureThreshold optResetTimeoutMs =
     \<lparr> failureThreshold = max 1 \<lfloor>optFailureThreshold\<rfloor>,
       resetTimeoutMs = max 0 \<lfloor>optResetTimeoutMs\<rfloor>,
       state = Closed, consecutiveFailures = 0, openedAt = 0 \<rparr>"

definition transitionToOpen :: "int \<Rightarrow> CircuitBreaker \<Rightarrow> CircuitBreaker" where
  "transitionToOpen now b = b\<lparr>state := Open, openedAt := now\<rparr>"

definition transitionToClosed :: "CircuitBreaker \<Rightarrow> CircuitBreaker" where
  "transitionToClosed b = b\<lparr>state := Closed, consecutiveFailures := 0, openedAt := 0\<rparr>"

definition shouldTransitionToHalfOpen :: "int \<Rightarrow> CircuitBreaker \<Rightarrow> bool" where
  "shouldTransitionToHalfOpen now b = (state b = Open \<and> now - openedAt b \<ge> resetTimeoutMs b)"

text \<open>
  One \<open>call\<close> reads the clock up to three times: in \<open>shouldTransitionToHalfOpen\<close>, when it
  computes \<open>elapsed\<close> for the rejection, and in \<open>transitionToOpen\<close> after \<open>fn\<close> has failed.
\<close>

record CallClock =
  gate_now :: int
  reject_now :: int
  settle_now :: int

text \<open>
  What a \<open>call\<close> rejects with: the breaker's own \<open>CircuitOpenError\<close> with its
  \<open>retryAfterMs\<close>, or the failure \<open>fn\<close> raised, passed on as it is.
\<close>

datatype 'e call_error = CircuitOpenError int | Raised 'e

record ('e, 'a) CallResult =
  outcome :: "'e call_error + 'a"
  fn_invoked :: bool

text \<open>
  The part of \<open>call\<close> before \<open>fn\<close>: the lazy transition to half-open, then the gate. It
  returns the \<open>retryAfterMs\<close> of the rejection, or \<open>None\<close> when \<open>fn\<close> is to run.
\<close>

definition call_gate :: "CallClock \<Rightarrow> CircuitBreaker \<Rightarrow> int option \<times> CircuitBreaker" where
  "call_gate k b =
     (let b1 = (if shouldTransitionToHalfOpen (gate_now k) b then b\<lparr>state := HalfOpen\<rparr> else b) in
      if state b1 = Open
      then (Some (max 0 (resetTimeoutMs b1 - (reject_now k - openedAt b1))), b1)
      else (None, b1))"

text \<open>
  The part of \<open>call\<close> after \<open>await fn()\<close>: the \<open>try\<close> branch for a result (\<open>Inr\<close>), the
  \<open>catch\<close> branch for a failure (\<open>Inl\<close>).
\<close>

definition call_settle :: "CallClock \<Rightarrow> 'e + 'a \<Rightarrow> CircuitBreaker \<Rightarrow> CircuitBreaker" where
  "call_settle k r b =
     (case r of
        Inr result \<Rightarrow>
          if state b = HalfOpen then transitionToClosed b else b\<lparr>consecutiveFailures := 0\<rparr>
      | Inl err \<Rightarrow>
          if state b = HalfOpen then transitionToOpen (settle_now k) b
          else (let b1 = b\<lparr>consecutiveFailures := consecutiveFailures b + 1\<rparr> in
                if consecutiveFailures b1 \<ge> failureThreshold b1
                then transitionToOpen (settle_now k) b1 else b1))"

text \<open>
  \<open>call(fn)\<close> for one caller at a time; \<open>r\<close> is what \<open>fn\<close> produces if it is invoked.
\<close>

definition call :: "CallClock \<Rightarrow> 'e + 'a \<Rightarrow> CircuitBreaker \<Rightarrow> ('e, 'a) CallResult \<times> CircuitBreaker" where
  "call k r b =
     (case call_gate k b of
        (Some retry, b1) \<Rightarrow>
          (\<lparr> outcome = Inl (CircuitOpenError retry), fn_invoked = False \<rparr>, b1)
      | (None, b1) \<Rightarrow>
          (\<lparr> outcome = (case r of Inl err \<Rightarrow> Inl (Raised err) | Inr result \<Rightarrow> Inr result),
             fn_invoked = True \<rparr>,
           call_settle k r b1))"

text \<open>The methods \<open>state()\<close>, \<open>failures()\<close> and \<open>reset()\<close>.\<close>

definition state_now :: "int \<Rightarrow> CircuitBreaker \<Rightarrow> CircuitBreakerState" where
  "state_now now b = (if shouldTransitionToHalfOpen now b then HalfOpen else state b)"

definition failures :: "CircuitBreaker \<Rightarrow> int" where
  "failures b = consecutiveFailures b"

definition reset_breaker :: "CircuitBreaker \<Rightarrow> CircuitBreaker" where
  "reset_breaker b = transitionToClosed b"

text \<open>A run of calls whose \<open>fn\<close> fails every time, one clock record for each call.\<close>

fun failing_calls :: "CallClock list \<Rightarrow> CircuitBreaker \<Rightarrow> CircuitBreaker" where
  "failing_calls [] b = b"
| "failing_calls (k # ks) b = failing_calls ks (snd (call k (Inl () :: unit + unit) b))"

text \<open>A clock that stands still during a call.\<close>

definition at_time :: "int \<Rightarrow> CallClock" where
  "at_time t = \<lparr> gate_now = t, reject_now = t, settle_now = t \<rparr>"

section \<open>Semaphore: \<open>src/infra/semaphore.ts\<close>\<close>

text \<open>
  The queue holds one closure per suspended \<open>acquire()\<close>; calling it resolves that
  caller's promise with \<open>release\<close>. A closure is the number of the caller it wakes.
  \<open>maxConcurrency = Math.max(1, Math.floor(concurrency))\<close>.
\<close>

record Semaphore =
  maxConcurrency :: js_limit
  activeCount :: int
  queue :: "nat list"

definition createSemaphore :: "js_number \<Rightarrow> Semaphore" where
  "createSemaphore concurrency =
     \<lparr> maxConcurrency = max_1_floor concurrency, activeCount = 0, queue = [] \<rparr>"

text \<open>
  \<open>release()\<close> returns the caller it has woken, if any. The decrement is unconditional;
  \<open>queue.shift()\<close> on an empty queue is \<open>undefined\<close> and the \<open>if (next)\<close> is skipped.
\<close>

definition release :: "Semaphore \<Rightarrow> nat option \<times> Semaphore" where
  "release s =
     (let s1 = s\<lparr>activeCount := activeCount s - 1\<rparr> in
      case queue s1 of
        [] \<Rightarrow> (None, s1)
      | next # rest \<Rightarrow> (Some next, s1\<lparr>queue := rest, activeCount := activeCount s1 + 1\<rparr>))"

text \<open>
  \<open>acquire()\<close> by caller \<open>w\<close>: \<open>True\<close> when the promise is resolved at once (the caller
  holds \<open>release\<close>), \<open>False\<close> when the caller is suspended in the queue.
\<close>

definition acquire :: "nat \<Rightarrow> Semaphore \<Rightarrow> bool \<times> Semaphore" where
  "acquire w s =
     (if lt_limit (activeCount s) (maxConcurrency s)
      then (True, s\<lparr>activeCount := activeCount s + 1\<rparr>)
      else (False, s\<lparr>queue := queue s @ [w]\<rparr>))"

definition active :: "Semaphore \<Rightarrow> int" where
  "active s = activeCount s"

definition waiting :: "Semaphore \<Rightarrow> nat" where
  "waiting s = length (queue s)"

definition limit :: "Semaphore \<Rightarrow> js_limit" where
  "limit s = maxConcurrency s"

text \<open>
  What happens to a semaphore: a caller calls \<open>acquire()\<close>, or somebody invokes a release
  callback. All release callbacks are the one closure \<open>release\<close>.
\<close>

datatype sem_event = Acquire nat | Release

fun sem_step :: "sem_event \<Rightarrow> Semaphore \<Rightarrow> Semaphore" where
  "sem_step (Acquire w) s = snd (acquire w s)"
| "sem_step Release s = snd (release s)"

definition sem_run :: "sem_event list \<Rightarrow> Semaphore \<Rightarrow> Semaphore" where
  "sem_run evs s = fold sem_step evs s"

text \<open>
  The discipline of the callers: every release callback is invoked at most once. \<open>held\<close>
  counts the callbacks handed out and not yet invoked; a callback is handed out when an
  \<open>acquire()\<close> resolves at once and when \<open>release()\<close> wakes a suspended caller, and an
  invocation needs one that is held.
\<close>

fun released_once :: "nat \<Rightarrow> sem_event list \<Rightarrow> Semaphore \<Rightarrow> bool" where
  "released_once held [] s = True"
| "released_once held (Acquire w # evs) s =
     released_once (if fst (acquire w s) then held + 1 else held) evs (snd (acquire w s))"
| "released_once held (Release # evs) s =
     (held > 0 \<and>
      released_once (case fst (release s) of None \<Rightarrow> held - 1 | Some next \<Rightarrow> held - 1 + 1)
        evs (snd (release s)))"

text \<open>
  What holds of the queue in every state: callers wait only while no permit is free.
\<close>

definition queue_ok :: "Semaphore \<Rightarrow> bool" where
  "queue_ok s = (queue s = [] \<or> \<not> lt_limit (activeCount s) (maxConcurrency s))"

subsection \<open>\<open>run\<close> and its two suspension points\<close>

text \<open>
  \<open>run(fn)\<close> is \<open>const releaseFn = await acquire(); try { return await fn() } finally {
  releaseFn() }\<close>. It is suspended at \<open>await acquire()\<close> until a permit is granted, and at
  \<open>await fn()\<close> until \<open>fn\<close> settles; other calls of \<open>run\<close> proceed in between. Several calls
  of \<open>run\<close> on one semaphore are a record of the semaphore, of the callers whose \<open>fn\<close> has
  been invoked and has not settled (\<open>inside\<close>), and of the calls of \<open>run\<close> that have settled,
  each with what it settled with (\<open>Inl\<close> a rejection, \<open>Inr\<close> a value). The callers suspended
  at \<open>await acquire()\<close> are the queue of the semaphore.
\<close>

record ('e, 'a) Runs =
  sem :: Semaphore
  inside :: "nat list"
  settled :: "(nat \<times> ('e + 'a)) list"

definition start_runs :: "js_number \<Rightarrow> ('e, 'a) Runs" where
  "start_runs concurrency = \<lparr> sem = createSemaphore concurrency, inside = [], settled = [] \<rparr>"

text \<open>
  Caller \<open>w\<close> calls \<open>run(fn)\<close>: \<open>acquire()\<close> runs; with the permit granted at once \<open>fn\<close> is
  invoked, otherwise the caller waits in the queue and \<open>fn\<close> is not invoked.
\<close>

definition run_call :: "nat \<Rightarrow> ('e, 'a) Runs \<Rightarrow> ('e, 'a) Runs" where
  "run_call w x =
     (case acquire w (sem x) of
        (True, s1) \<Rightarrow> x\<lparr>sem := s1, inside := inside x @ [w]\<rparr>
      | (False, s1) \<Rightarrow> x\<lparr>sem := s1\<rparr>)"

text \<open>
  The \<open>fn\<close> of caller \<open>w\<close> settles with \<open>r\<close>: the \<open>finally\<close> block invokes \<open>releaseFn()\<close>, and
  \<open>run\<close> settles with \<open>r\<close>, the value returned or the failure thrown on. A caller that the
  release wakes resumes after its \<open>await acquire()\<close> and invokes its \<open>fn\<close>.
\<close>

definition run_settle :: "nat \<Rightarrow> 'e + 'a \<Rightarrow> ('e, 'a) Runs \<Rightarrow> ('e, 'a) Runs" where
  "run_settle w r x =
     (case release (sem x) of
        (None, s1) \<Rightarrow>
          x\<lparr>sem := s1, inside := remove1 w (inside x), settled := settled x @ [(w, r)]\<rparr>
      | (Some woken, s1) \<Rightarrow>
          x\<lparr>sem := s1, inside := remove1 w (inside x) @ [woken],
            settled := settled x @ [(w, r)]\<rparr>)"

datatype ('e, 'a) run_event = Call nat | Settle nat "'e + 'a"

fun run_step :: "('e, 'a) run_event \<Rightarrow> ('e, 'a) Runs \<Rightarrow> ('e, 'a) Runs" where
  "run_step (Call w) x = run_call w x"
| "run_step (Settle w r) x = run_settle w r x"

definition run_all :: "('e, 'a) run_event list \<Rightarrow> ('e, 'a) Runs \<Rightarrow> ('e, 'a) Runs" where
  "run_all evs x = fold run_step evs x"

text \<open>
  The interleavings that can happen: a call of \<open>run\<close> is a new caller, and only a \<open>fn\<close> that
  has been invoked and has not settled can settle.
\<close>

definition new_caller :: "nat \<Rightarrow> ('e, 'a) Runs \<Rightarrow> bool" where
  "new_caller w x =
     (w \<notin> set (inside x) \<and> w \<notin> set (queue (sem x)) \<and> w \<notin> fst ` set (settled x))"

fun feasible :: "('e, 'a) run_event list \<Rightarrow> ('e, 'a) Runs \<Rightarrow> bool" where
  "feasible [] x = True"
| "feasible (Call w # evs) x = (new_caller w x \<and> feasible evs (run_call w x))"
| "feasible (Settle w r # evs) x = (w \<in> set (inside x) \<and> feasible evs (run_settle w r x))"

text \<open>What the calls of \<open>fn\<close> settled with, in the order in which they settled.\<close>

fun outcomes :: "('e, 'a) run_event list \<Rightarrow> (nat \<times> ('e + 'a)) list" where
  "outcomes [] = []"
| "outcomes (Call w # evs) = outcomes evs"
| "outcomes (Settle w r # evs) = (w, r) # outcomes evs"

section \<open>Throttle: \<open>src/infra/throttle.ts\<close>\<close>

text \<open>
  The closure variables, the wrapped function's calls as a log (clock reading and
  arguments of each call of \<open>fn\<close>, oldest first), and the timer: \<open>timer\<close> is the time at
  which the scheduled \<open>setTimeout\<close> callback is due, \<open>None\<close> when nothing is scheduled.
  \<open>Date.now()\<close> is the only clock; its readings are arguments.
\<close>

record 'a Throttle =
  interval :: int
  timer :: "int option"
  lastCallTime :: int
  pendingArgs :: "'a option"
  invocations :: "(int \<times> 'a) list"

definition throttle :: "real \<Rightarrow> 'a Throttle" where
  "throttle intervalMs =
     \<lparr> interval = max 0 \<lfloor>intervalMs\<rfloor>, timer = None, lastCallTime = 0,
       pendingArgs = None, invocations = [] \<rparr>"

definition invoke :: "int \<Rightarrow> 'a \<Rightarrow> 'a Throttle \<Rightarrow> 'a Throttle" where
  "invoke now args s = s\<lparr>lastCallTime := now, invocations := invocations s @ [(now, args)]\<rparr>"

definition clearPending :: "'a Throttle \<Rightarrow> 'a Throttle" where
  "clearPending s = s\<lparr>timer := None, pendingArgs := None\<rparr>"

text \<open>
  \<open>throttled(...args)\<close>: \<open>now\<close> is the reading for \<open>elapsed\<close>, \<open>now'\<close> the reading inside
  \<open>invoke\<close>. \<open>setTimeout(cb, interval - elapsed)\<close> called at \<open>now\<close> is due at
  \<open>now + (interval - elapsed)\<close>.
\<close>

definition throttled :: "int \<Rightarrow> int \<Rightarrow> 'a \<Rightarrow> 'a Throttle \<Rightarrow> 'a Throttle" where
  "throttled now now' args s =
     (let elapsed = now - lastCallTime s in
      if elapsed \<ge> interval s then invoke now' args (clearPending s)
      else (let s1 = s\<lparr>pendingArgs := Some args\<rparr> in
            if timer s1 = None then s1\<lparr>timer := Some (now + (interval s - elapsed))\<rparr> else s1))"

text \<open>The body of the \<open>setTimeout\<close> callback, run at reading \<open>now\<close>.\<close>

definition timer_callback :: "int \<Rightarrow> 'a Throttle \<Rightarrow> 'a Throttle" where
  "timer_callback now s =
     (let s1 = s\<lparr>timer := None\<rparr> in
      case pendingArgs s1 of
        None \<Rightarrow> s1
      | Some saved \<Rightarrow> invoke now saved (s1\<lparr>pendingArgs := None\<rparr>))"

definition cancel :: "'a Throttle \<Rightarrow> 'a Throttle" where
  "cancel s = clearPending s"

definition flush :: "int \<Rightarrow> 'a Throttle \<Rightarrow> 'a Throttle" where
  "flush now s =
     (case pendingArgs s of
        None \<Rightarrow> s
      | Some saved \<Rightarrow> invoke now saved (s\<lparr>timer := None, pendingArgs := None\<rparr>))"

text \<open>
  The timer runtime advanced to time \<open>t\<close>, as \<open>vi.advanceTimersByTime\<close> does: a callback
  that is due by then runs, at the reading at which it is due. The callback schedules
  nothing, so one step is all that can happen.
\<close>

definition run_timers :: "int \<Rightarrow> 'a Throttle \<Rightarrow> 'a Throttle" where
  "run_timers t s =
     (case timer s of
        None \<Rightarrow> s
      | Some due \<Rightarrow> if due \<le> t then timer_callback due s else s)"

text \<open>Calls of the throttled function one after the other, each at one clock reading.\<close>

fun throttled_calls :: "(int \<times> 'a) list \<Rightarrow> 'a Throttle \<Rightarrow> 'a Throttle" where
  "throttled_calls [] s = s"
| "throttled_calls ((t, args) # cs) s = throttled_calls cs (throttled t t args s)"

section \<open>Properties of the LRU cache\<close>

lemma Map_get_has: "Map_get m k = Some e \<Longrightarrow> Map_has m k"
  by (auto simp: Map_get_def Map_has_def dest!: map_of_SomeD intro: image_eqI [where x = "(k, e)"])

lemma not_has_after_delete: "\<not> Map_has (snd (Map_delete k m)) k"
  by (auto simp: Map_has_def Map_delete_def)

lemma Map_keys_delete:
  "Map_keys (snd (Map_delete key m)) = filter (\<lambda>x. x \<noteq> key) (Map_keys m)"
  by (simp add: Map_keys_def Map_delete_def filter_map comp_def)

lemma filter_member_remove: "filter (\<lambda>k. k \<in> set ks \<and> P k) ks = filter P ks"
  by (rule filter_cong) auto

lemma expired_cache_entries:
  "entries expired_cache = [(''a'', \<lparr>entry_value = 1, expiresAt = 6000\<rparr>)]"
  by (simp add: expired_cache_def set_lru_def createLruCache_def max_1_floor_def Map_get_def
      Map_set_def Map_has_def evict_while.simps Let_def)

subsection \<open>The probe \<open>has\<close>\<close>

text \<open>
  Claim C6. For every cache state, clock reading and key, \<open>has(key)\<close> is true exactly when
  the key is stored with an entry that is not expired, which is exactly when \<open>get(key)\<close>
  finds a value (the same expiry test). The probe never reorders: the keys after it are
  the keys before it, in the same order, restricted to those still stored; the only key
  that can disappear is the probed one, when its entry has expired.
\<close>

theorem has_is_a_probe:
  "fst (has_lru now key c) = (\<exists>e. Map_get (entries c) key = Some e \<and> \<not> isExpired now e)
   \<and> fst (has_lru now key c) = (fst (get_lru now key c) \<noteq> None)
   \<and> keys_lru (snd (has_lru now key c)) =
       filter (\<lambda>k. k \<in> set (keys_lru (snd (has_lru now key c)))) (keys_lru c)
   \<and> keys_lru (snd (has_lru now key c)) =
       (if \<exists>e. Map_get (entries c) key = Some e \<and> isExpired now e
        then filter (\<lambda>k. k \<noteq> key) (keys_lru c) else keys_lru c)"
proof (cases "Map_get (entries c) key")
  case None
  then show ?thesis by (simp add: has_lru_def get_lru_def keys_lru_def)
next
  case (Some e)
  show ?thesis
  proof (cases "isExpired now e")
    case True
    with Some show ?thesis
      by (simp add: has_lru_def get_lru_def keys_lru_def Map_keys_delete filter_member_remove)
  next
    case False
    with Some show ?thesis by (simp add: has_lru_def get_lru_def keys_lru_def)
  qed
qed

subsection \<open>The size bound\<close>

lemma evict_while_stops: "\<not> gt_limit (int (length (evict_while n m))) n"
proof (induction n m rule: evict_while.induct)
  case (1 n m)
  show ?case
  proof (cases "gt_limit (int (length m)) n")
    case True
    with 1 show ?thesis by (subst evict_while.simps) simp
  next
    case False
    then show ?thesis by (subst evict_while.simps) simp
  qed
qed

lemma le_limit_mono: "a \<le> b \<Longrightarrow> le_limit b n \<Longrightarrow> le_limit a n"
  by (cases n) auto

lemma not_gt_limit_le: "n \<noteq> NotANumber \<Longrightarrow> \<not> gt_limit a n \<Longrightarrow> le_limit a n"
  by (cases n) auto

lemma le_limit_is_number: "le_limit a n \<Longrightarrow> n \<noteq> NotANumber"
  by (cases n) auto

lemma length_Map_delete: "length (snd (Map_delete k m)) \<le> length m"
  by (simp add: Map_delete_def)

lemma length_Map_delete_present:
  assumes "Map_get m k = Some e"
  shows "length (snd (Map_delete k m)) < length m"
proof -
  from assms have "(k, e) \<in> set m" by (simp add: Map_get_def map_of_SomeD)
  then show ?thesis
    unfolding Map_delete_def snd_conv by (rule length_filter_less) simp
qed

lemma length_touch:
  assumes "Map_get m k = Some e"
  shows "length (touch k e' m) \<le> length m"
  using length_Map_delete_present [OF assms]
  by (simp add: touch_def Map_set_def not_has_after_delete)

lemma maxSize_apply_lru [simp]: "maxSize (apply_lru op c) = maxSize c"
  by (cases "(op, c)" rule: apply_lru.cases)
     (simp_all add: set_lru_def get_lru_def has_lru_def delete_lru_def clear_lru_def Let_def
        split: option.splits)

lemma size_apply_lru_shrinks:
  assumes "\<And>now k v. op \<noteq> (now, Set k v)"
  shows "size_lru (apply_lru op c) \<le> size_lru c"
proof (cases "(op, c)" rule: apply_lru.cases)
  case (1 now k v c')
  with assms show ?thesis by simp
next
  case (2 now k c')
  then show ?thesis
    using length_Map_delete [of k "entries c"] length_touch [of "entries c" k]
    by (auto simp: get_lru_def size_lru_def split: option.splits)
next
  case (3 now k c')
  then show ?thesis
    using length_Map_delete [of k "entries c"]
    by (auto simp: has_lru_def size_lru_def split: option.splits)
next
  case (4 now k c')
  then show ?thesis
    using length_Map_delete [of k "entries c"] by (simp add: delete_lru_def size_lru_def)
next
  case (5 now c')
  then show ?thesis by (simp add: clear_lru_def size_lru_def)
qed

lemma size_apply_lru:
  assumes "le_limit (int (size_lru c)) (maxSize c)"
  shows "le_limit (int (size_lru (apply_lru op c))) (maxSize c)"
proof (cases "\<exists>now k v. op = (now, Set k v)")
  case True
  then obtain now k v where op: "op = (now, Set k v)" by blast
  from assms have "maxSize c \<noteq> NotANumber" by (rule le_limit_is_number)
  then show ?thesis
    unfolding op by (simp add: set_lru_def size_lru_def Let_def evict_while_stops not_gt_limit_le)
next
  case False
  then have "size_lru (apply_lru op c) \<le> size_lru c" by (intro size_apply_lru_shrinks) blast
  then have "int (size_lru (apply_lru op c)) \<le> int (size_lru c)" by simp
  then show ?thesis using assms by (rule le_limit_mono)
qed

lemma run_lru_invariant:
  "le_limit (int (size_lru c)) (maxSize c) \<Longrightarrow>
   le_limit (int (size_lru (run_lru ops c))) (maxSize c) \<and> maxSize (run_lru ops c) = maxSize c"
proof (induction ops arbitrary: c)
  case Nil
  then show ?case by (simp add: run_lru_def)
next
  case (Cons op ops)
  from Cons.prems have "le_limit (int (size_lru (apply_lru op c))) (maxSize (apply_lru op c))"
    by (simp add: size_apply_lru)
  from Cons.IH [OF this] show ?case by (simp add: run_lru_def)
qed

text \<open>
  For every requested \<open>maxSize\<close> that is a number or an infinity the bound holds: the
  limit is a positive integer or \<open>Infinity\<close>, and after any sequence of \<open>set\<close>, \<open>get\<close>, \<open>has\<close>,
  \<open>delete\<close> and \<open>clear\<close> calls, at any clock readings, \<open>size()\<close> is at most the limit.
\<close>

lemma size_bounded_for_numbers:
  assumes "optMaxSize \<noteq> NaN"
  shows "le_limit (int (size_lru (run_lru ops (createLruCache optMaxSize optTtlMs))))
           (max_1_floor optMaxSize)
         \<and> le_limit 1 (max_1_floor optMaxSize)"
proof -
  let ?c = "createLruCache optMaxSize optTtlMs :: 'a LruCache"
  from assms have l: "le_limit 1 (max_1_floor optMaxSize)"
    by (cases optMaxSize) (simp_all add: max_1_floor_def)
  from assms have "le_limit (int (size_lru ?c)) (maxSize ?c)"
    by (cases optMaxSize) (simp_all add: createLruCache_def size_lru_def max_1_floor_def)
  from run_lru_invariant [OF this, of ops] l show ?thesis by (simp add: createLruCache_def)
qed

text \<open>
  Claim C8. For a cache constructed with any \<open>maxSize\<close>, clamped to at least 1,
  \<open>size() \<le> maxSize\<close> holds after every mutating operation. The code departs from it for
  the requested size \<open>NaN\<close>: \<open>Math.max(1, Math.floor(NaN))\<close> is \<open>NaN\<close>, not 1, the loop test
  \<open>map.size > maxSize\<close> is then never true and nothing is ever evicted. Five \<open>set\<close> calls
  with five keys leave \<open>size() = 5\<close>, and \<open>5 <= maxSize\<close> is false.
\<close>

theorem nan_maxSize_is_not_clamped:
  "maxSize (createLruCache NaN None :: nat LruCache) = NotANumber
   \<and> size_lru (run_lru [(0, Set ''a'' 1), (0, Set ''b'' 2), (0, Set ''c'' 3), (0, Set ''d'' 4),
                        (0, Set ''e'' 5)] (createLruCache NaN None :: nat LruCache)) = 5
   \<and> \<not> le_limit 5 (maxSize (createLruCache NaN None :: nat LruCache))"
  by (simp add: createLruCache_def max_1_floor_def run_lru_def set_lru_def size_lru_def
      Map_get_def Map_set_def Map_has_def evict_while.simps)

subsection \<open>\<open>delete\<close> and expiry\<close>

text \<open>
  Claim C10. \<open>delete(key)\<close> reports whether the key is physically stored and never looks
  at the expiry time: it returns true exactly when the map holds an entry for the key,
  false for an absent key, and leaves the other entries as they were, in their order. So
  for a key whose stored entry has expired, at one and the same cache state and clock
  reading \<open>delete\<close> returns true, \<open>get\<close> returns not-found and \<open>has\<close> returns false.
\<close>

theorem delete_reports_presence_ignoring_expiry:
  "fst (delete_lru key c) = Map_has (entries c) key
   \<and> fst (delete_lru key c) = (Map_get (entries c) key \<noteq> None)
   \<and> snd (delete_lru key c) = c\<lparr>entries := filter (\<lambda>p. fst p \<noteq> key) (entries c)\<rparr>
   \<and> (Map_get (entries c) key = Some entry \<and> isExpired now entry \<longrightarrow>
        fst (delete_lru key c) = True \<and> fst (get_lru now key c) = None
        \<and> fst (has_lru now key c) = False)"
proof -
  have p: "Map_has (entries c) key = (Map_get (entries c) key \<noteq> None)"
  proof (cases "Map_get (entries c) key")
    case None
    then show ?thesis by (simp add: Map_get_def Map_has_def map_of_eq_None_iff)
  next
    case (Some e)
    with Map_get_has [OF Some] show ?thesis by simp
  qed
  have d: "fst (delete_lru key c) = Map_has (entries c) key"
    and s: "snd (delete_lru key c) = c\<lparr>entries := filter (\<lambda>p. fst p \<noteq> key) (entries c)\<rparr>"
    by (simp_all add: delete_lru_def Map_delete_def)
  have e: "Map_get (entries c) key = Some entry \<and> isExpired now entry \<longrightarrow>
        fst (delete_lru key c) = True \<and> fst (get_lru now key c) = None
        \<and> fst (has_lru now key c) = False"
    by (simp add: delete_lru_def get_lru_def has_lru_def Map_delete_def Map_get_has)
  from p d s e show ?thesis by simp
qed

theorem delete_reports_presence_witness:
  "Map_get (entries expired_cache) ''a'' = Some \<lparr>entry_value = 1, expiresAt = 6000\<rparr>
   \<and> isExpired 6000 \<lparr>entry_value = 1 :: nat, expiresAt = 6000\<rparr>
   \<and> fst (delete_lru ''a'' expired_cache) = True
   \<and> fst (get_lru 6000 ''a'' expired_cache) = None
   \<and> fst (has_lru 6000 ''a'' expired_cache) = False
   \<and> fst (delete_lru ''b'' expired_cache) = False
   \<and> fst (delete_lru ''a'' (snd (delete_lru ''a'' expired_cache))) = False"
proof -
  have g: "Map_get (entries expired_cache) ''a'' = Some \<lparr>entry_value = 1, expiresAt = 6000\<rparr>"
    by (simp add: expired_cache_entries Map_get_def)
  have e: "isExpired 6000 \<lparr>entry_value = 1 :: nat, expiresAt = 6000\<rparr>"
    by (simp add: isExpired_def)
  have b: "Map_has (entries expired_cache) ''b'' = False"
    by (simp add: expired_cache_entries Map_has_def)
  have a: "Map_has (entries (snd (delete_lru ''a'' expired_cache))) ''a'' = False"
    by (simp add: delete_lru_def not_has_after_delete)
  note t = delete_reports_presence_ignoring_expiry
  from t [of "''a''" expired_cache "\<lparr>entry_value = 1, expiresAt = 6000\<rparr>" 6000] g e
  have 1: "fst (delete_lru ''a'' expired_cache) = True
      \<and> fst (get_lru 6000 ''a'' expired_cache) = None
      \<and> fst (has_lru 6000 ''a'' expired_cache) = False" by blast
  from t [of "''b''" expired_cache] b have 2: "fst (delete_lru ''b'' expired_cache) = False"
    by simp
  from t [of "''a''" "snd (delete_lru ''a'' expired_cache)"] a
  have 3: "fst (delete_lru ''a'' (snd (delete_lru ''a'' expired_cache))) = False" by simp
  from g e 1 2 3 show ?thesis by simp
qed

section \<open>Properties of the sliding-window rate limiter\<close>

subsection \<open>The ring buffer against the array\<close>

lemma advance_head_drop:
  "h \<le> length b \<Longrightarrow>
   drop (advance_head c b h) b = shift_while c (drop h b)
   \<and> h \<le> advance_head c b h \<and> advance_head c b h \<le> length b"
proof (induction c b h rule: advance_head.induct)
  case (1 cutoff b h)
  show ?case
  proof (cases "h < length b \<and> b ! h < cutoff")
    case True
    then have d: "drop h b = b ! h # drop (Suc h) b" by (simp add: Cons_nth_drop_Suc)
    from True have "h + 1 \<le> length b" by simp
    from 1(1) [OF True this] True d show ?thesis
      by (subst (1 2 3) advance_head.simps) simp
  next
    case False
    show ?thesis
    proof (cases "h < length b")
      case True
      with False have "\<not> b ! h < cutoff" by simp
      moreover from True have "drop h b = b ! h # drop (Suc h) b" by (simp add: Cons_nth_drop_Suc)
      ultimately show ?thesis using True by (subst (1 2 3) advance_head.simps) simp
    next
      case False
      with 1(2) show ?thesis by (subst (1 2 3) advance_head.simps) simp
    qed
  qed
qed

lemma sim_prune: "sim ts r \<Longrightarrow> sim (prune cfg t ts) (prune_ring cfg t r)"
  using advance_head_drop [of "head r" "buf r" "t - windowMs cfg"]
  by (auto simp: sim_def live_def prune_def prune_ring_def Let_def)


lemma sim_length: "sim ts r \<Longrightarrow> activeCount_ring r = int (length ts)"
  by (auto simp: sim_def live_def activeCount_ring_def)

lemma sim_oldest: "sim ts r \<Longrightarrow> js_index (buf r) (head r) = js_index ts 0"
  by (auto simp: sim_def live_def js_index_def)

lemma sim_push: "sim ts r \<Longrightarrow> sim (ts @ [t]) (r\<lparr>buf := buf r @ [t]\<rparr>)"
  by (auto simp: sim_def live_def)

lemma sim_consume:
  assumes "sim ts r"
  shows "fst (consume_ring cfg t r) = fst (consume cfg t ts)
         \<and> sim (snd (consume cfg t ts)) (snd (consume_ring cfg t r))"
proof -
  let ?ts = "prune cfg t ts" and ?r = "prune_ring cfg t r"
  have s: "sim ?ts ?r" using assms by (rule sim_prune)
  show ?thesis
  proof (cases "length ?ts \<ge> maxRequests cfg")
    case True
    with s show ?thesis
      by (simp add: consume_def consume_ring_def Let_def sim_length sim_oldest)
  next
    case False
    with s sim_push [OF s, of t] show ?thesis
      by (simp add: consume_def consume_ring_def Let_def sim_length)
  qed
qed

lemma sim_count:
  assumes "sim ts r"
  shows "fst (count_ring cfg t r) = fst (count cfg t ts)
         \<and> sim (snd (count cfg t ts)) (snd (count_ring cfg t r))"
  using sim_prune [OF assms, of cfg t] by (simp add: count_def count_ring_def sim_length)

lemma sim_reset: "sim (reset ts) (reset_ring r)"
  by (simp add: sim_def live_def reset_def reset_ring_def)

lemma sim_call:
  assumes "sim ts r"
  shows "fst (call_ring cfg c r) = fst (call_array cfg c ts)
         \<and> sim (snd (call_array cfg c ts)) (snd (call_ring cfg c r))"
  using sim_consume [OF assms] sim_count [OF assms] sim_reset by (cases c) simp_all

lemma sim_run:
  "sim ts r \<Longrightarrow>
   fst (run_ring cfg cs r) = fst (run_array cfg cs ts)
   \<and> sim (snd (run_array cfg cs ts)) (snd (run_ring cfg cs r))"
proof (induction cs arbitrary: ts r)
  case Nil
  then show ?case by simp
next
  case (Cons c cs)
  from sim_call [OF Cons.prems, of cfg c]
  have o: "fst (call_ring cfg c r) = fst (call_array cfg c ts)"
    and s: "sim (snd (call_array cfg c ts)) (snd (call_ring cfg c r))" by simp_all
  from Cons.IH [OF s] o show ?case by simp
qed

text \<open>
  Claim C7. The array version and the ring-buffer version of the limiter are
  observationally equivalent: started empty with the same configuration, any sequence of
  \<open>consume()\<close>, \<open>reset()\<close> and \<open>count()\<close> calls, at any clock readings, returns the same
  results from both (the same \<open>allowed\<close>, \<open>retryAfterMs\<close> and \<open>remaining\<close>, the same counts),
  and the live part of the buffer is the array.
\<close>

theorem ring_buffer_refines_array:
  "fst (run_ring cfg calls \<lparr>buf = [], head = 0\<rparr>) = fst (run_array cfg calls [])
   \<and> live (snd (run_ring cfg calls \<lparr>buf = [], head = 0\<rparr>)) = snd (run_array cfg calls [])"
proof -
  have "sim [] \<lparr>buf = [], head = 0\<rparr>" by (simp add: sim_def live_def)
  from sim_run [OF this, of cfg calls] show ?thesis by (simp add: sim_def)
qed

subsection \<open>What pruning retains\<close>





lemma shift_while_lower: "sorted ts \<Longrightarrow> t \<in> set (shift_while c ts) \<Longrightarrow> c \<le> t"
  by (induction ts) (auto split: if_splits)

lemma shift_while_removes: "sorted ts \<Longrightarrow> t \<in> set ts \<Longrightarrow> t < c \<Longrightarrow> t \<notin> set (shift_while c ts)"
  using shift_while_lower by fastforce











section \<open>Properties of the circuit breaker\<close>

lemma failing_calls_closed:
  "state b = Closed \<Longrightarrow> consecutiveFailures b + int (length ks) < failureThreshold b \<Longrightarrow>
   failing_calls ks b = b\<lparr>consecutiveFailures := consecutiveFailures b + int (length ks)\<rparr>"
proof (induction ks arbitrary: b)
  case Nil
  then show ?case by simp
next
  case (Cons k ks)
  let ?b = "b\<lparr>consecutiveFailures := consecutiveFailures b + 1\<rparr>"
  from Cons.prems have "snd (call k (Inl () :: unit + unit) b) = ?b"
    by (simp add: call_def call_gate_def call_settle_def shouldTransitionToHalfOpen_def Let_def)
  moreover from Cons.prems have "failing_calls ks ?b = ?b\<lparr>consecutiveFailures := consecutiveFailures ?b + int (length ks)\<rparr>"
    by (intro Cons.IH) simp_all
  ultimately show ?case by (simp add: add.assoc)
qed

lemma failing_calls_snoc: "failing_calls (ks @ [k]) b = snd (call k (Inl () :: unit + unit) (failing_calls ks b))"
  by (induction ks arbitrary: b) simp_all


lemma failing_calls_below_threshold:
  assumes "int (length ks) < max 1 \<lfloor>ft\<rfloor>"
  shows "failing_calls ks (createCircuitBreaker ft rt) =
           (createCircuitBreaker ft rt)\<lparr>consecutiveFailures := int (length ks)\<rparr>"
proof -
  let ?b = "createCircuitBreaker ft rt"
  have "state ?b = Closed" by (simp add: createCircuitBreaker_def)
  moreover from assms have "consecutiveFailures ?b + int (length ks) < failureThreshold ?b"
    by (simp add: createCircuitBreaker_def)
  ultimately have "failing_calls ks ?b = ?b\<lparr>consecutiveFailures := consecutiveFailures ?b + int (length ks)\<rparr>"
    by (rule failing_calls_closed)
  then show ?thesis by (simp add: createCircuitBreaker_def)
qed

lemma closed_failure_step:
  assumes "state b = Closed"
  shows "snd (call k (Inl err) b) =
          (if consecutiveFailures b + 1 \<ge> failureThreshold b
           then b\<lparr>consecutiveFailures := consecutiveFailures b + 1, state := Open,
                  openedAt := settle_now k\<rparr>
           else b\<lparr>consecutiveFailures := consecutiveFailures b + 1\<rparr>)"
  using assms
  by (simp add: call_def call_gate_def call_settle_def shouldTransitionToHalfOpen_def Let_def
      transitionToOpen_def)

lemma failing_calls_at_threshold:
  assumes "int (length ks) + 1 = max 1 \<lfloor>ft\<rfloor>"
  shows "failing_calls (ks @ [k]) (createCircuitBreaker ft rt) =
           (createCircuitBreaker ft rt)\<lparr>consecutiveFailures := int (length ks) + 1,
              state := Open, openedAt := settle_now k\<rparr>"
proof -
  let ?b = "createCircuitBreaker ft rt"
  from assms have "int (length ks) < max 1 \<lfloor>ft\<rfloor>" by simp
  then have e: "failing_calls ks ?b = ?b\<lparr>consecutiveFailures := int (length ks)\<rparr>"
    by (rule failing_calls_below_threshold)
  have "state (?b\<lparr>consecutiveFailures := int (length ks)\<rparr>) = Closed"
    by (simp add: createCircuitBreaker_def)
  from closed_failure_step [OF this, of k "()"] assms e show ?thesis
    by (simp add: failing_calls_snoc createCircuitBreaker_def)
qed

lemma half_open_after_timeout:
  assumes "state b = Open" and "gate_now k - openedAt b \<ge> resetTimeoutMs b"
  shows "state_now (gate_now k) b = HalfOpen"
    and "call_gate k b = (None, b\<lparr>state := HalfOpen\<rparr>)"
    and "fn_invoked (fst (call k r b))"
    and "snd (call k (Inr result) b) = b\<lparr>state := Closed, consecutiveFailures := 0, openedAt := 0\<rparr>"
    and "snd (call k (Inl err) b) = b\<lparr>state := Open, openedAt := settle_now k\<rparr>"
  using assms
  by (simp_all add: state_now_def call_def call_gate_def call_settle_def
      shouldTransitionToHalfOpen_def transitionToClosed_def transitionToOpen_def)

lemma two_failures_state:
  "failing_calls [at_time 1000, at_time 1000] (createCircuitBreaker 2 5000) =
     \<lparr> failureThreshold = 2, resetTimeoutMs = 5000, state = Open,
       consecutiveFailures = 2, openedAt = 1000 \<rparr>"
  by (simp add: createCircuitBreaker_def at_time_def call_def call_gate_def call_settle_def
      shouldTransitionToHalfOpen_def transitionToOpen_def Let_def)

lemma one_failure_state:
  "failing_calls [at_time 1000] (createCircuitBreaker 1 5000) =
     \<lparr> failureThreshold = 1, resetTimeoutMs = 5000, state = Open,
       consecutiveFailures = 1, openedAt = 1000 \<rparr>"
  by (simp add: createCircuitBreaker_def at_time_def call_def call_gate_def call_settle_def
      shouldTransitionToHalfOpen_def transitionToOpen_def Let_def)

text \<open>
  Claim C3. The breaker follows the state machine of the specification. It starts closed
  with no failures. From closed, a failure of \<open>fn\<close> opens it exactly when the count of
  consecutive failures reaches \<open>failureThreshold\<close>, and then \<open>openedAt\<close> is the clock reading
  at that moment; counted from creation, fewer failures than the threshold leave it
  closed and the failure that reaches the threshold opens it. While the stored state is
  open, \<open>state()\<close> reports open as long as \<open>now - openedAt < resetTimeoutMs\<close>; once
  \<open>now - openedAt \<ge> resetTimeoutMs\<close>, \<open>state()\<close> reports half-open and \<open>call\<close> moves to
  half-open and invokes \<open>fn\<close>. In half-open a success of \<open>fn\<close> gives closed with
  \<open>failures() = 0\<close>, and a failure gives open with \<open>openedAt\<close> set to the current reading.
\<close>

theorem breaker_follows_state_machine:
  "state (createCircuitBreaker ft rt) = Closed \<and> failures (createCircuitBreaker ft rt) = 0
   \<and> (int (length ks) < max 1 \<lfloor>ft\<rfloor> \<longrightarrow>
        state (failing_calls ks (createCircuitBreaker ft rt)) = Closed
        \<and> failures (failing_calls ks (createCircuitBreaker ft rt)) = int (length ks))
   \<and> (int (length ks) + 1 = max 1 \<lfloor>ft\<rfloor> \<longrightarrow>
        state (failing_calls (ks @ [k]) (createCircuitBreaker ft rt)) = Open
        \<and> openedAt (failing_calls (ks @ [k]) (createCircuitBreaker ft rt)) = settle_now k)
   \<and> (state b = Closed \<longrightarrow>
        snd (call k (Inl err :: 'e + 'a) b) =
          (if consecutiveFailures b + 1 \<ge> failureThreshold b
           then b\<lparr>consecutiveFailures := consecutiveFailures b + 1, state := Open,
                  openedAt := settle_now k\<rparr>
           else b\<lparr>consecutiveFailures := consecutiveFailures b + 1\<rparr>)
        \<and> snd (call k (Inr result :: 'e + 'a) b) = b\<lparr>consecutiveFailures := 0\<rparr>)
   \<and> (state b = Open \<and> now - openedAt b < resetTimeoutMs b \<longrightarrow> state_now now b = Open)
   \<and> (state b = Open \<and> gate_now k - openedAt b \<ge> resetTimeoutMs b \<longrightarrow>
        state_now (gate_now k) b = HalfOpen
        \<and> call_gate k b = (None, b\<lparr>state := HalfOpen\<rparr>)
        \<and> snd (call k (Inr result :: 'e + 'a) b) =
            b\<lparr>state := Closed, consecutiveFailures := 0, openedAt := 0\<rparr>
        \<and> snd (call k (Inl err :: 'e + 'a) b) = b\<lparr>state := Open, openedAt := settle_now k\<rparr>)
   \<and> (state b = HalfOpen \<longrightarrow>
        state_now now b = HalfOpen
        \<and> call_settle k (Inr result :: 'e + 'a) b =
            b\<lparr>state := Closed, consecutiveFailures := 0, openedAt := 0\<rparr>
        \<and> call_settle k (Inl err :: 'e + 'a) b = b\<lparr>state := Open, openedAt := settle_now k\<rparr>)"
proof -
  have init: "state (createCircuitBreaker ft rt) = Closed \<and> failures (createCircuitBreaker ft rt) = 0"
    by (simp add: createCircuitBreaker_def failures_def)
  have below: "int (length ks) < max 1 \<lfloor>ft\<rfloor> \<longrightarrow>
        state (failing_calls ks (createCircuitBreaker ft rt)) = Closed
        \<and> failures (failing_calls ks (createCircuitBreaker ft rt)) = int (length ks)"
    by (simp add: failing_calls_below_threshold failures_def) (simp add: createCircuitBreaker_def)
  have reach: "int (length ks) + 1 = max 1 \<lfloor>ft\<rfloor> \<longrightarrow>
        state (failing_calls (ks @ [k]) (createCircuitBreaker ft rt)) = Open
        \<and> openedAt (failing_calls (ks @ [k]) (createCircuitBreaker ft rt)) = settle_now k"
    by (simp add: failing_calls_at_threshold)
  have closed: "state b = Closed \<longrightarrow>
        snd (call k (Inl err :: 'e + 'a) b) =
          (if consecutiveFailures b + 1 \<ge> failureThreshold b
           then b\<lparr>consecutiveFailures := consecutiveFailures b + 1, state := Open,
                  openedAt := settle_now k\<rparr>
           else b\<lparr>consecutiveFailures := consecutiveFailures b + 1\<rparr>)
        \<and> snd (call k (Inr result :: 'e + 'a) b) = b\<lparr>consecutiveFailures := 0\<rparr>"
    by (simp add: closed_failure_step)
       (simp add: call_def call_gate_def call_settle_def shouldTransitionToHalfOpen_def)
  have still: "state b = Open \<and> now - openedAt b < resetTimeoutMs b \<longrightarrow> state_now now b = Open"
    by (simp add: state_now_def shouldTransitionToHalfOpen_def)
  have lazy: "state b = Open \<and> gate_now k - openedAt b \<ge> resetTimeoutMs b \<longrightarrow>
        state_now (gate_now k) b = HalfOpen
        \<and> call_gate k b = (None, b\<lparr>state := HalfOpen\<rparr>)
        \<and> snd (call k (Inr result :: 'e + 'a) b) =
            b\<lparr>state := Closed, consecutiveFailures := 0, openedAt := 0\<rparr>
        \<and> snd (call k (Inl err :: 'e + 'a) b) = b\<lparr>state := Open, openedAt := settle_now k\<rparr>"
    by (simp add: half_open_after_timeout)
  have stored: "state b = HalfOpen \<longrightarrow>
        state_now now b = HalfOpen
        \<and> call_settle k (Inr result :: 'e + 'a) b =
            b\<lparr>state := Closed, consecutiveFailures := 0, openedAt := 0\<rparr>
        \<and> call_settle k (Inl err :: 'e + 'a) b = b\<lparr>state := Open, openedAt := settle_now k\<rparr>"
    by (simp add: state_now_def call_settle_def shouldTransitionToHalfOpen_def
        transitionToClosed_def transitionToOpen_def)
  from init below reach closed still lazy stored show ?thesis by blast
qed


theorem breaker_follows_state_machine_witness:
  "state (failing_calls [at_time 1000] (createCircuitBreaker 2 5000)) = Closed
   \<and> failures (failing_calls [at_time 1000] (createCircuitBreaker 2 5000)) = 1
   \<and> state (failing_calls [at_time 1000, at_time 1000] (createCircuitBreaker 2 5000)) = Open
   \<and> openedAt (failing_calls [at_time 1000, at_time 1000] (createCircuitBreaker 2 5000)) = 1000
   \<and> state_now 5999 (failing_calls [at_time 1000, at_time 1000] (createCircuitBreaker 2 5000)) = Open
   \<and> state_now 6000 (failing_calls [at_time 1000, at_time 1000] (createCircuitBreaker 2 5000)) = HalfOpen
   \<and> snd (call (at_time 6000) (Inr () :: unit + unit)
           (failing_calls [at_time 1000, at_time 1000] (createCircuitBreaker 2 5000))) =
       \<lparr> failureThreshold = 2, resetTimeoutMs = 5000, state = Closed,
         consecutiveFailures = 0, openedAt = 0 \<rparr>
   \<and> snd (call (at_time 6000) (Inl () :: unit + unit)
           (failing_calls [at_time 1000, at_time 1000] (createCircuitBreaker 2 5000))) =
       \<lparr> failureThreshold = 2, resetTimeoutMs = 5000, state = Open,
         consecutiveFailures = 2, openedAt = 6000 \<rparr>"
proof -
  let ?b0 = "createCircuitBreaker 2 5000"
  let ?B = "failing_calls [at_time 1000, at_time 1000] ?b0"
  have l1: "int (length [at_time 1000]) < max 1 \<lfloor>2 :: real\<rfloor>" by simp
  have l2: "int (length [at_time 1000]) + 1 = max 1 \<lfloor>2 :: real\<rfloor>" by simp
  have o: "state ?B = Open" by (simp add: two_failures_state del: failing_calls.simps)
  have e1: "5999 - openedAt ?B < resetTimeoutMs ?B" by (simp add: two_failures_state del: failing_calls.simps)
  have e2: "gate_now (at_time 6000) - openedAt ?B \<ge> resetTimeoutMs ?B"
    unfolding two_failures_state by (simp add: at_time_def)
  note t1 = breaker_follows_state_machine [where ft = 2 and rt = 5000 and ks = "[at_time 1000]"
      and k = "at_time 1000" and b = ?B and now = 5999 and err = "()" and result = "()"]
  note t2 = breaker_follows_state_machine [where ft = 2 and rt = 5000 and ks = "[at_time 1000]"
      and k = "at_time 6000" and b = ?B and now = 5999 and err = "()" and result = "()"]
  from t1 l1 have a: "state (failing_calls [at_time 1000] ?b0) = Closed
      \<and> failures (failing_calls [at_time 1000] ?b0) = 1" by (simp del: failing_calls.simps)
  from t1 l2 have b: "state ?B = Open \<and> openedAt ?B = settle_now (at_time 1000)"
    by (simp del: failing_calls.simps)
  from t1 o e1 have c: "state_now 5999 ?B = Open" by blast
  from t2 o e2 have d: "state_now (gate_now (at_time 6000)) ?B = HalfOpen
      \<and> snd (call (at_time 6000) (Inr () :: unit + unit) ?B) =
            ?B\<lparr>state := Closed, consecutiveFailures := 0, openedAt := 0\<rparr>
      \<and> snd (call (at_time 6000) (Inl () :: unit + unit) ?B) =
            ?B\<lparr>state := Open, openedAt := settle_now (at_time 6000)\<rparr>" by blast
  from a b c d show ?thesis unfolding two_failures_state by (simp add: at_time_def del: failing_calls.simps)
qed

text \<open>
  Claim C4. When \<open>call(fn)\<close> is invoked while the breaker is open and the time since
  \<open>openedAt\<close> is still below \<open>resetTimeoutMs\<close>, the call fails with \<open>CircuitOpenError\<close>
  carrying \<open>retryAfterMs = max(0, resetTimeoutMs - elapsed)\<close> (\<open>elapsed\<close> is read from the
  clock when the error is built), \<open>fn\<close> is not invoked, whatever it would have produced,
  and the stored state of the breaker is unchanged.
\<close>

theorem open_breaker_rejects_without_calling:
  assumes "state b = Open" and "gate_now k - openedAt b < resetTimeoutMs b"
  shows "call k r b =
          (\<lparr> outcome = Inl (CircuitOpenError (max 0 (resetTimeoutMs b - (reject_now k - openedAt b)))),
             fn_invoked = False \<rparr>, b)"
  using assms by (simp add: call_def call_gate_def shouldTransitionToHalfOpen_def)

theorem open_breaker_rejects_witness:
  "state (failing_calls [at_time 1000] (createCircuitBreaker 1 5000)) = Open
   \<and> gate_now (at_time 2000) - openedAt (failing_calls [at_time 1000] (createCircuitBreaker 1 5000))
       < resetTimeoutMs (failing_calls [at_time 1000] (createCircuitBreaker 1 5000))
   \<and> call (at_time 2000) (Inr ''should not run'' :: unit + string)
        (failing_calls [at_time 1000] (createCircuitBreaker 1 5000)) =
       (\<lparr> outcome = Inl (CircuitOpenError 4000), fn_invoked = False \<rparr>,
        failing_calls [at_time 1000] (createCircuitBreaker 1 5000))"
proof -
  let ?B = "failing_calls [at_time 1000] (createCircuitBreaker 1 5000)"
  have o: "state ?B = Open" by (simp add: one_failure_state del: failing_calls.simps)
  have e: "gate_now (at_time 2000) - openedAt ?B < resetTimeoutMs ?B"
    unfolding one_failure_state by (simp add: at_time_def)
  from open_breaker_rejects_without_calling [OF o e, of "Inr ''should not run'' :: unit + string"] o e
  show ?thesis unfolding one_failure_state by (simp add: at_time_def)
qed

section \<open>Properties of the semaphore\<close>

lemma limit_step [simp]: "maxConcurrency (sem_step ev s) = maxConcurrency s"
  by (cases ev) (simp_all add: acquire_def release_def Let_def split: list.splits)

lemma limit_run [simp]: "maxConcurrency (sem_run evs s) = maxConcurrency s"
  by (induction evs arbitrary: s) (simp_all add: sem_run_def)

lemma le_limit_Suc: "lt_limit a m \<Longrightarrow> le_limit (a + 1) m"
  by (cases m) auto

lemma upper_step:
  assumes "le_limit (activeCount s) (maxConcurrency s)"
  shows "le_limit (activeCount (sem_step ev s)) (maxConcurrency s)"
proof (cases ev)
  case (Acquire w)
  with assms show ?thesis by (simp add: acquire_def le_limit_Suc)
next
  case Release
  have "activeCount (snd (release s)) \<le> activeCount s"
    by (cases "queue s") (simp_all add: release_def Let_def)
  then have "le_limit (activeCount (snd (release s))) (maxConcurrency s)"
    using assms by (rule le_limit_mono)
  with Release show ?thesis by simp
qed

lemma upper_run:
  "le_limit (activeCount s) (maxConcurrency s) \<Longrightarrow>
   le_limit (activeCount (sem_run evs s)) (maxConcurrency s)"
proof (induction evs arbitrary: s)
  case Nil
  then show ?case by (simp add: sem_run_def)
next
  case (Cons ev evs)
  from upper_step [OF Cons.prems, of ev]
  have "le_limit (activeCount (sem_step ev s)) (maxConcurrency (sem_step ev s))" by simp
  from Cons.IH [OF this] show ?case by (simp add: sem_run_def)
qed

lemma held_run:
  "released_once held evs s \<Longrightarrow> activeCount s = int held \<Longrightarrow>
   0 \<le> activeCount (sem_run evs s)"
proof (induction held evs s rule: released_once.induct)
  case (1 held s)
  then show ?case by (simp add: sem_run_def)
next
  case (2 held w evs s)
  let ?h = "if fst (acquire w s) then held + 1 else held"
  from 2(2) have r: "released_once ?h evs (snd (acquire w s))" by simp
  from 2(3) have "activeCount (snd (acquire w s)) = int ?h" by (simp add: acquire_def)
  from 2(1) [OF r this] show ?case by (simp add: sem_run_def)
next
  case (3 held evs s)
  let ?h = "case fst (release s) of None \<Rightarrow> held - 1 | Some next \<Rightarrow> held - 1 + 1"
  from 3(2) have p: "held > 0" and r: "released_once ?h evs (snd (release s))" by simp_all
  from 3(3) p have "activeCount (snd (release s)) = int ?h"
    by (cases "queue s") (simp_all add: release_def Let_def)
  from 3(1) [OF r this] show ?case by (simp add: sem_run_def)
qed

lemma released_once_prefix:
  "released_once held (evs @ evs') s \<Longrightarrow> released_once held evs s"
  by (induction held evs s rule: released_once.induct) simp_all

lemma limit_is_clamped: "c \<noteq> NaN \<Longrightarrow> le_limit 1 (max_1_floor c)"
  by (cases c) (simp_all add: max_1_floor_def)

text \<open>
  Claim C1, as the code has it. For a semaphore created with any requested concurrency
  other than \<open>NaN\<close> and any sequence of \<open>acquire()\<close> calls and invocations of release
  callbacks, \<open>limit()\<close> is the requested concurrency clamped to at least 1 and
  \<open>active() \<le> limit()\<close> holds after every step, also when a release callback is invoked
  more than once. For any requested concurrency, \<open>0 \<le> active()\<close> holds after every step of
  a sequence in which every release callback is invoked at most once.
\<close>

theorem semaphore_bounds:
  "limit (sem_run evs (createSemaphore c)) = max_1_floor c
   \<and> (c \<noteq> NaN \<longrightarrow>
        le_limit 1 (limit (sem_run evs (createSemaphore c)))
        \<and> le_limit (active (sem_run evs (createSemaphore c)))
                    (limit (sem_run evs (createSemaphore c))))
   \<and> (released_once 0 evs (createSemaphore c) \<longrightarrow>
        (\<forall>n. 0 \<le> active (sem_run (take n evs) (createSemaphore c))))"
proof -
  let ?s = "createSemaphore c"
  have l: "limit (sem_run evs ?s) = max_1_floor c" by (simp add: limit_def createSemaphore_def)
  have u: "le_limit 1 (limit (sem_run evs ?s))
      \<and> le_limit (active (sem_run evs ?s)) (limit (sem_run evs ?s))" if c: "c \<noteq> NaN"
  proof -
    from c have one: "le_limit 1 (max_1_floor c)" by (rule limit_is_clamped)
    then have "le_limit 0 (max_1_floor c)" by (rule le_limit_mono [rotated]) simp
    then have "le_limit (activeCount ?s) (maxConcurrency ?s)" by (simp add: createSemaphore_def)
    from upper_run [OF this, of evs] one l show ?thesis
      by (simp add: active_def limit_def createSemaphore_def)
  qed
  have "0 \<le> active (sem_run (take n evs) ?s)" if p: "released_once 0 evs ?s" for n
  proof -
    from p have "released_once 0 (take n evs @ drop n evs) ?s" by simp
    then have "released_once 0 (take n evs) ?s" by (rule released_once_prefix)
    moreover have "activeCount ?s = int 0" by (simp add: createSemaphore_def)
    ultimately show ?thesis unfolding active_def by (rule held_run)
  qed
  with l u show ?thesis by blast
qed

theorem semaphore_bounds_witness:
  "released_once 0 [Acquire 0, Acquire 1, Release, Release] (createSemaphore (Number 1))
   \<and> limit (sem_run [Acquire 0, Acquire 1, Release, Release] (createSemaphore (Number 1))) = Limit 1
   \<and> le_limit (active (sem_run [Acquire 0, Acquire 1, Release, Release] (createSemaphore (Number 1))))
        (limit (sem_run [Acquire 0, Acquire 1, Release, Release] (createSemaphore (Number 1))))
   \<and> active (sem_run (take 2 [Acquire 0, Acquire 1, Release, Release]) (createSemaphore (Number 1))) = 1
   \<and> waiting (sem_run (take 2 [Acquire 0, Acquire 1, Release, Release]) (createSemaphore (Number 1))) = 1
   \<and> 0 \<le> active (sem_run (take 3 [Acquire 0, Acquire 1, Release, Release]) (createSemaphore (Number 1)))
   \<and> 0 \<le> active (sem_run (take 4 [Acquire 0, Acquire 1, Release, Release]) (createSemaphore (Number 1)))"
proof -
  let ?evs = "[Acquire 0, Acquire 1, Release, Release]"
  let ?s = "createSemaphore (Number 1)"
  have p: "released_once 0 ?evs ?s"
    by (simp add: createSemaphore_def max_1_floor_def acquire_def release_def)
  have c: "Number 1 \<noteq> NaN" by simp
  have q: "active (sem_run (take 2 ?evs) ?s) = 1 \<and> waiting (sem_run (take 2 ?evs) ?s) = 1"
    by (simp add: sem_run_def createSemaphore_def max_1_floor_def acquire_def active_def
        waiting_def)
  note t = semaphore_bounds [of ?evs "Number 1"]
  from t have l: "limit (sem_run ?evs ?s) = Limit 1" by (simp add: max_1_floor_def)
  from t c have u: "le_limit (active (sem_run ?evs ?s)) (limit (sem_run ?evs ?s))" by blast
  from t p have "\<forall>n. 0 \<le> active (sem_run (take n ?evs) ?s)" by blast
  with p q l u show ?thesis by blast
qed

text \<open>
  The lower bound fails on a double release: \<open>release\<close> decrements without a check, so
  with one permit, one \<open>acquire()\<close> and two invocations of its release callback leave
  \<open>active() = -1\<close>.
\<close>

theorem double_release_goes_negative:
  "active (sem_run [Acquire 0, Release, Release] (createSemaphore (Number 1))) = - 1
   \<and> \<not> 0 \<le> active (sem_run [Acquire 0, Release, Release] (createSemaphore (Number 1)))"
  by (simp add: sem_run_def createSemaphore_def max_1_floor_def acquire_def release_def
      active_def)

lemma queue_ok_step: "queue_ok s \<Longrightarrow> queue_ok (sem_step ev s)"
proof (cases ev)
  case (Acquire w)
  assume "queue_ok s"
  with Acquire show ?thesis by (auto simp: queue_ok_def acquire_def)
next
  case Release
  assume "queue_ok s"
  with Release show ?thesis
    by (cases "queue s") (auto simp: queue_ok_def release_def Let_def)
qed

lemma sem_run_call: "sem (run_call w x) = sem_step (Acquire w) (sem x)"
  by (simp add: run_call_def acquire_def)

lemma sem_run_settle: "sem (run_settle w r x) = sem_step Release (sem x)"
  by (cases "queue (sem x)") (simp_all add: run_settle_def release_def Let_def)

lemma limit_run_call [simp]: "maxConcurrency (sem (run_call w x)) = maxConcurrency (sem x)"
  by (simp add: run_call_def acquire_def)

lemma limit_run_settle [simp]: "maxConcurrency (sem (run_settle w r x)) = maxConcurrency (sem x)"
  by (cases "queue (sem x)") (simp_all add: run_settle_def release_def Let_def)

lemma count_run_call:
  "activeCount (sem x) = int (length (inside x)) \<Longrightarrow>
   activeCount (sem (run_call w x)) = int (length (inside (run_call w x)))"
  by (simp add: run_call_def acquire_def)

lemma count_run_settle:
  assumes "w \<in> set (inside x)" and "activeCount (sem x) = int (length (inside x))"
  shows "activeCount (sem (run_settle w r x)) = int (length (inside (run_settle w r x)))"
proof -
  from assms(1) have "int (length (inside x) - Suc 0) = int (length (inside x)) - 1"
    by (cases "inside x") auto
  with assms show ?thesis
    by (cases "queue (sem x)") (simp_all add: run_settle_def release_def Let_def length_remove1)
qed

lemma feasible_invariant:
  "feasible evs x \<Longrightarrow> activeCount (sem x) = int (length (inside x)) \<Longrightarrow> queue_ok (sem x) \<Longrightarrow>
   activeCount (sem (run_all evs x)) = int (length (inside (run_all evs x)))
   \<and> queue_ok (sem (run_all evs x))
   \<and> maxConcurrency (sem (run_all evs x)) = maxConcurrency (sem x)"
proof (induction evs x rule: feasible.induct)
  case (1 x)
  then show ?case by (simp add: run_all_def)
next
  case (2 w evs x)
  from 2(2) have f: "feasible evs (run_call w x)" by simp
  from 2(3) have c: "activeCount (sem (run_call w x)) = int (length (inside (run_call w x)))"
    by (rule count_run_call)
  from queue_ok_step [OF 2(4), of "Acquire w"] have q: "queue_ok (sem (run_call w x))"
    by (simp add: sem_run_call)
  from 2(1) [OF f c q] show ?case by (simp add: run_all_def)
next
  case (3 w r evs x)
  from 3(2) have i: "w \<in> set (inside x)" and f: "feasible evs (run_settle w r x)" by simp_all
  from i 3(3) have c: "activeCount (sem (run_settle w r x)) = int (length (inside (run_settle w r x)))"
    by (rule count_run_settle)
  from queue_ok_step [OF 3(4), of Release] have q: "queue_ok (sem (run_settle w r x))"
    by (simp add: sem_run_settle)
  from 3(1) [OF f c q] show ?case by (simp add: run_all_def)
qed

lemma settled_run_all: "settled (run_all evs x) = settled x @ outcomes evs"
proof (induction evs arbitrary: x rule: outcomes.induct)
  case 1
  then show ?case by (simp add: run_all_def)
next
  case (2 w evs)
  have "settled (run_call w x) = settled x" by (simp add: run_call_def acquire_def)
  with 2 [of "run_call w x"] show ?case by (simp add: run_all_def)
next
  case (3 w r evs)
  have "settled (run_settle w r x) = settled x @ [(w, r)]"
    by (cases "queue (sem x)") (simp_all add: run_settle_def release_def Let_def)
  with 3 [of "run_settle w r x"] show ?case by (simp add: run_all_def)
qed


lemma uncontended_run:
  assumes "queue_ok (sem x)" and "new_caller w x"
    and "lt_limit (active (sem x)) (limit (sem x))"
  shows "inside (run_call w x) = inside x @ [w]"
    and "active (sem (run_call w x)) = active (sem x) + 1"
    and "queue (sem (run_call w x)) = []"
    and "run_settle w r (run_call w x) = x\<lparr>settled := settled x @ [(w, r)]\<rparr>"
proof -
  from assms(1,3) have q: "queue (sem x) = []" by (simp add: queue_ok_def active_def limit_def)
  from assms(2) have n: "w \<notin> set (inside x)" by (simp add: new_caller_def)
  from assms(3) show "inside (run_call w x) = inside x @ [w]"
    and "active (sem (run_call w x)) = active (sem x) + 1"
    by (simp_all add: run_call_def acquire_def active_def limit_def)
  from assms(3) q show "queue (sem (run_call w x)) = []"
    by (simp add: run_call_def acquire_def active_def limit_def)
  from assms(3) q n show "run_settle w r (run_call w x) = x\<lparr>settled := settled x @ [(w, r)]\<rparr>"
    by (simp add: run_call_def run_settle_def acquire_def release_def active_def limit_def
        remove1_append)
qed

lemma contended_run:
  assumes "\<not> lt_limit (active (sem x)) (limit (sem x))"
  shows "run_call w x = x\<lparr>sem := (sem x)\<lparr>queue := queue (sem x) @ [w]\<rparr>\<rparr>"
  using assms by (simp add: run_call_def acquire_def active_def limit_def)

lemma settle_hands_over:
  "active (sem (run_settle w r x)) =
     (if queue (sem x) = [] then active (sem x) - 1 else active (sem x))
   \<and> inside (run_settle w r x) = remove1 w (inside x) @ take 1 (queue (sem x))
   \<and> queue (sem (run_settle w r x)) = drop 1 (queue (sem x))
   \<and> settled (run_settle w r x) = settled x @ [(w, r)]"
  by (cases "queue (sem x)") (simp_all add: run_settle_def release_def Let_def active_def)


lemma run_all_upper:
  "le_limit (activeCount (sem x)) (maxConcurrency (sem x)) \<Longrightarrow>
   le_limit (activeCount (sem (run_all evs x))) (maxConcurrency (sem x))"
proof (induction evs arbitrary: x)
  case Nil
  then show ?case by (simp add: run_all_def)
next
  case (Cons ev evs)
  have "le_limit (activeCount (sem (run_step ev x))) (maxConcurrency (sem (run_step ev x)))"
  proof (cases ev)
    case (Call w)
    from upper_step [OF Cons.prems, of "Acquire w"]
    have "le_limit (activeCount (sem (run_call w x))) (maxConcurrency (sem x))"
      by (simp add: sem_run_call)
    then show ?thesis unfolding Call by simp
  next
    case (Settle w r)
    from upper_step [OF Cons.prems, of Release]
    have "le_limit (activeCount (sem (run_settle w r x))) (maxConcurrency (sem x))"
      by (simp add: sem_run_settle)
    then show ?thesis unfolding Settle by simp
  qed
  from Cons.IH [OF this] show ?case by (cases ev) (simp_all add: run_all_def)
qed

text \<open>
  Claim C5. \<open>run(fn)\<close> acquires a permit, invokes \<open>fn\<close>, and releases the permit on every
  exit path. For any number of calls of \<open>run\<close> on one semaphore, interleaved in any way
  that can happen at the two suspension points, and whatever each \<open>fn\<close> settles with:
  \<open>active()\<close> is the number of callers whose \<open>fn\<close> has been invoked and has not settled,
  so a permit is held exactly while \<open>fn\<close> runs, and unless the requested concurrency is
  \<open>NaN\<close> no more than \<open>limit()\<close> run at a time; every call of \<open>run\<close> settles with exactly
  what its \<open>fn\<close> settled with, a rejection as much as a value. A call of \<open>run\<close> that finds a
  permit free raises \<open>active()\<close> by one while \<open>fn\<close> runs, and when \<open>fn\<close> settles, with a value
  or a rejection, the semaphore is as it was before the call (net zero). A call that finds
  no permit free waits at the tail of the queue with \<open>active()\<close> unchanged and \<open>fn\<close> not
  invoked. When a \<open>fn\<close> settles its permit goes to the head of the queue, whose \<open>fn\<close> is
  invoked, or \<open>active()\<close> drops by one. Once every call of \<open>run\<close> has settled the semaphore
  is as it was created.
\<close>

theorem run_acquires_holds_releases:
  fixes r :: "'e + 'a"
  assumes "feasible evs (start_runs c :: ('e, 'a) Runs)" and "x = run_all evs (start_runs c)"
  shows "active (sem x) = int (length (inside x))
    \<and> (c \<noteq> NaN \<longrightarrow> le_limit (int (length (inside x))) (limit (sem x)))
    \<and> settled x = outcomes evs
    \<and> (new_caller w x \<and> lt_limit (active (sem x)) (limit (sem x)) \<longrightarrow>
         inside (run_call w x) = inside x @ [w]
         \<and> active (sem (run_call w x)) = active (sem x) + 1
         \<and> run_settle w r (run_call w x) = x\<lparr>settled := settled x @ [(w, r)]\<rparr>)
    \<and> (\<not> lt_limit (active (sem x)) (limit (sem x)) \<longrightarrow>
         run_call w x = x\<lparr>sem := (sem x)\<lparr>queue := queue (sem x) @ [w]\<rparr>\<rparr>)
    \<and> active (sem (run_settle w r x)) =
         (if queue (sem x) = [] then active (sem x) - 1 else active (sem x))
    \<and> inside (run_settle w r x) = remove1 w (inside x) @ take 1 (queue (sem x))
    \<and> queue (sem (run_settle w r x)) = drop 1 (queue (sem x))
    \<and> settled (run_settle w r x) = settled x @ [(w, r)]
    \<and> (inside x = [] \<and> queue (sem x) = [] \<longrightarrow> sem x = createSemaphore c)"
proof -
  let ?x0 = "start_runs c :: ('e, 'a) Runs"
  have c0: "activeCount (sem ?x0) = int (length (inside ?x0))"
    and q0: "queue_ok (sem ?x0)"
    by (simp_all add: start_runs_def createSemaphore_def queue_ok_def)
  from feasible_invariant [OF assms(1) c0 q0] assms(2)
  have cnt: "activeCount (sem x) = int (length (inside x))" and ok: "queue_ok (sem x)"
    and lim: "maxConcurrency (sem x) = max_1_floor c"
    by (simp_all add: start_runs_def createSemaphore_def)
  from cnt have 1: "active (sem x) = int (length (inside x))" by (simp add: active_def)
  have 2: "le_limit (int (length (inside x))) (limit (sem x))" if "c \<noteq> NaN"
  proof -
    from that have "le_limit 1 (max_1_floor c)" by (rule limit_is_clamped)
    then have "le_limit 0 (max_1_floor c)" by (rule le_limit_mono [rotated]) simp
    then have "le_limit (activeCount (sem ?x0)) (maxConcurrency (sem ?x0))"
      by (simp add: start_runs_def createSemaphore_def)
    from run_all_upper [OF this, of evs] assms(2) cnt lim show ?thesis
      by (simp add: limit_def start_runs_def createSemaphore_def)
  qed
  from assms(2) have 3: "settled x = outcomes evs"
    by (simp add: settled_run_all start_runs_def)
  have 4: "inside (run_call w x) = inside x @ [w]
         \<and> active (sem (run_call w x)) = active (sem x) + 1
         \<and> run_settle w r (run_call w x) = x\<lparr>settled := settled x @ [(w, r)]\<rparr>"
    if "new_caller w x \<and> lt_limit (active (sem x)) (limit (sem x))"
    using that uncontended_run [OF ok] by blast
  have 5: "run_call w x = x\<lparr>sem := (sem x)\<lparr>queue := queue (sem x) @ [w]\<rparr>\<rparr>"
    if "\<not> lt_limit (active (sem x)) (limit (sem x))"
    using that by (rule contended_run)
  note 6 = settle_hands_over [of w r x]
  have 7: "sem x = createSemaphore c" if "inside x = [] \<and> queue (sem x) = []"
    using that cnt lim by (simp add: createSemaphore_def)
  from 1 2 3 4 5 6 7 show ?thesis by blast
qed


theorem run_acquires_holds_releases_witness:
  "feasible [Call 1, Call 2, Settle 1 (Inl ''fail''), Settle 2 (Inr ''ok'')]
     (start_runs (Number 1) :: (string, string) Runs)
   \<and> active (sem (run_call 1 (start_runs (Number 1) :: (string, string) Runs))) = 1
   \<and> run_settle 1 (Inl ''fail'') (run_call 1 (start_runs (Number 1) :: (string, string) Runs))
       = \<lparr> sem = createSemaphore (Number 1), inside = [], settled = [(1, Inl ''fail'')] \<rparr>
   \<and> inside (run_all [Call 1, Call 2] (start_runs (Number 1) :: (string, string) Runs)) = [1]
   \<and> queue (sem (run_all [Call 1, Call 2] (start_runs (Number 1) :: (string, string) Runs))) = [2]
   \<and> active (sem (run_all [Call 1, Call 2] (start_runs (Number 1) :: (string, string) Runs))) = 1
   \<and> inside (run_all [Call 1, Call 2, Settle 1 (Inl ''fail'')]
        (start_runs (Number 1) :: (string, string) Runs)) = [2]
   \<and> active (sem (run_all [Call 1, Call 2, Settle 1 (Inl ''fail'')]
        (start_runs (Number 1) :: (string, string) Runs))) = 1
   \<and> settled (run_all [Call 1, Call 2, Settle 1 (Inl ''fail''), Settle 2 (Inr ''ok'')]
        (start_runs (Number 1) :: (string, string) Runs)) = [(1, Inl ''fail''), (2, Inr ''ok'')]
   \<and> sem (run_all [Call 1, Call 2, Settle 1 (Inl ''fail''), Settle 2 (Inr ''ok'')]
        (start_runs (Number 1) :: (string, string) Runs)) = createSemaphore (Number 1)"
proof -
  let ?x0 = "start_runs (Number 1) :: (string, string) Runs"
  let ?two = "[Call 1, Call 2] :: (string, string) run_event list"
  let ?three = "[Call 1, Call 2, Settle 1 (Inl ''fail'')] :: (string, string) run_event list"
  let ?all = "[Call 1, Call 2, Settle 1 (Inl ''fail''), Settle 2 (Inr ''ok'')]
      :: (string, string) run_event list"
  note defs = run_all_def run_call_def run_settle_def acquire_def release_def start_runs_def
    createSemaphore_def max_1_floor_def new_caller_def active_def limit_def
  have f0: "feasible [] ?x0" by simp
  have f2: "feasible ?two ?x0" and f3: "feasible ?three ?x0" and f4: "feasible ?all ?x0"
    by (simp_all add: defs)
  have x0: "?x0 = run_all [] ?x0" by (simp add: run_all_def)
  have free: "new_caller 1 ?x0 \<and> lt_limit (active (sem ?x0)) (limit (sem ?x0))"
    by (simp add: defs)
  have two: "inside (run_all ?two ?x0) = [1] \<and> queue (sem (run_all ?two ?x0)) = [2]"
    by (simp add: defs)
  have three: "inside (run_all ?three ?x0) = [2]" by (simp add: defs)
  have four: "inside (run_all ?all ?x0) = [] \<and> queue (sem (run_all ?all ?x0)) = []"
    by (simp add: defs)
  note t0 = run_acquires_holds_releases [OF f0 x0, where w = 1 and r = "Inl ''fail''"]
  note t2 = run_acquires_holds_releases [OF f2 refl, where w = 1 and r = "Inl ''fail''"]
  note t3 = run_acquires_holds_releases [OF f3 refl, where w = 1 and r = "Inl ''fail''"]
  note t4 = run_acquires_holds_releases [OF f4 refl, where w = 1 and r = "Inl ''fail''"]
  from t0 free have "active (sem (run_call 1 ?x0)) = active (sem ?x0) + 1
      \<and> run_settle 1 (Inl ''fail'') (run_call 1 ?x0) = ?x0\<lparr>settled := settled ?x0 @ [(1, Inl ''fail'')]\<rparr>"
    by blast
  then have a: "active (sem (run_call 1 ?x0)) = 1
      \<and> run_settle 1 (Inl ''fail'') (run_call 1 ?x0)
          = \<lparr> sem = createSemaphore (Number 1), inside = [], settled = [(1, Inl ''fail'')] \<rparr>"
    by (simp add: start_runs_def createSemaphore_def active_def)
  from t2 have "active (sem (run_all ?two ?x0)) = int (length (inside (run_all ?two ?x0)))"
    by (rule conjunct1)
  with two have b: "active (sem (run_all ?two ?x0)) = 1" by simp
  from t3 have "active (sem (run_all ?three ?x0)) = int (length (inside (run_all ?three ?x0)))"
    by (rule conjunct1)
  with three have c: "active (sem (run_all ?three ?x0)) = 1" by simp
  from t4 have "settled (run_all ?all ?x0) = outcomes ?all" by blast
  then have d: "settled (run_all ?all ?x0) = [(1, Inl ''fail''), (2, Inr ''ok'')]" by simp
  from t4 four have e: "sem (run_all ?all ?x0) = createSemaphore (Number 1)" by blast
  from f4 a two b three c d e show ?thesis by blast
qed

section \<open>Properties of the throttle\<close>

lemma quiescent_call:
  assumes "now - lastCallTime s \<ge> interval s"
  shows "throttled now now' args s =
           s\<lparr>timer := None, pendingArgs := None, lastCallTime := now',
              invocations := invocations s @ [(now', args)]\<rparr>"
  using assms by (simp add: throttled_def invoke_def clearPending_def)

lemma leading_call:
  assumes "max 0 \<lfloor>intervalMs\<rfloor> \<le> T"
  shows "throttled T T a (throttle intervalMs) =
           \<lparr> interval = max 0 \<lfloor>intervalMs\<rfloor>, timer = None, lastCallTime = T,
             pendingArgs = None, invocations = [(T, a)] \<rparr>"
  using assms by (simp add: throttled_def invoke_def clearPending_def throttle_def)

lemma coalesced_call:
  assumes "t - lastCallTime s < interval s"
    and "timer s = None \<or> timer s = Some (lastCallTime s + interval s)"
  shows "throttled t t' args s =
           s\<lparr>pendingArgs := Some args, timer := Some (lastCallTime s + interval s)\<rparr>"
  using assms by (auto simp: throttled_def Let_def)

lemma coalesced_calls:
  assumes "list_all (\<lambda>c. fst c - lastCallTime s < interval s) cs" and "cs \<noteq> []"
    and "timer s = None \<or> timer s = Some (lastCallTime s + interval s)"
  shows "throttled_calls cs s =
           s\<lparr>pendingArgs := Some (snd (last cs)), timer := Some (lastCallTime s + interval s)\<rparr>"
  using assms
proof (induction cs arbitrary: s)
  case Nil
  then show ?case by simp
next
  case (Cons c cs)
  obtain t args where c: "c = (t, args)" by (cases c)
  let ?s = "s\<lparr>pendingArgs := Some args, timer := Some (lastCallTime s + interval s)\<rparr>"
  from Cons.prems c have "t - lastCallTime s < interval s" by simp
  then have step: "throttled t t args s = ?s" using Cons.prems(3) by (rule coalesced_call)
  show ?case
  proof (cases "cs = []")
    case True
    with c step show ?thesis by simp
  next
    case False
    from Cons.prems(1) have "list_all (\<lambda>c. fst c - lastCallTime ?s < interval ?s) cs" by simp
    moreover have "timer ?s = None \<or> timer ?s = Some (lastCallTime ?s + interval ?s)" by simp
    ultimately have "throttled_calls cs ?s =
        ?s\<lparr>pendingArgs := Some (snd (last cs)), timer := Some (lastCallTime ?s + interval ?s)\<rparr>"
      using False by (intro Cons.IH)
    with c step False show ?thesis by simp
  qed
qed

lemma trailing_fire:
  assumes "timer s = Some due" and "pendingArgs s = Some args"
  shows "t < due \<Longrightarrow> run_timers t s = s"
    and "due \<le> t \<Longrightarrow> run_timers t s =
           s\<lparr>timer := None, pendingArgs := None, lastCallTime := due,
              invocations := invocations s @ [(due, args)]\<rparr>"
    and "due \<le> t \<Longrightarrow> run_timers t' (run_timers t s) = run_timers t s"
  using assms by (simp_all add: run_timers_def timer_callback_def invoke_def)


lemma three_calls_at_once:
  assumes "100 \<le> T"
  shows "throttled_calls [(T, a), (T, b), (T, c)] (throttle 100) =
           \<lparr> interval = 100, timer = Some (T + 100), lastCallTime = T,
             pendingArgs = Some c, invocations = [(T, a)] \<rparr>"
    and "run_timers (T + 100) (throttled_calls [(T, a), (T, b), (T, c)] (throttle 100)) =
           \<lparr> interval = 100, timer = None, lastCallTime = T + 100,
             pendingArgs = None, invocations = [(T, a), (T + 100, c)] \<rparr>"
  using assms
  by (simp_all add: throttled_def invoke_def clearPending_def throttle_def Let_def
      run_timers_def timer_callback_def)

lemma after_leading_call:
  "throttled 1000 1000 ''a'' (throttle 100) =
     \<lparr> interval = 100, timer = None, lastCallTime = 1000, pendingArgs = None,
       invocations = [(1000, ''a'')] \<rparr>"
  by (simp add: throttled_def invoke_def clearPending_def throttle_def)

text \<open>
  Where \<open>Date.now() - lastCallTime \<ge> interval\<close> at the first call (\<open>lastCallTime\<close> starts at
  0), the throttle coalesces as intended. With \<open>intervalMs = 100\<close> and three calls all
  arriving at one clock reading \<open>T \<ge> 100\<close>, the wrapped function is invoked at once, exactly
  once, with the first call's arguments, nothing more happens before \<open>T + 100\<close>, and at
  \<open>T + 100\<close> it is invoked exactly once more, with the third call's arguments. In general a
  call arriving when \<open>now - lastCallTime \<ge> interval\<close> invokes the function synchronously
  and leaves nothing pending; calls arriving within the interval of the last invocation
  invoke nothing, keep only the arguments of the most recent call, and schedule one wake
  at \<open>lastCallTime + interval\<close>, which invokes the function once with those arguments and
  leaves nothing scheduled.
\<close>

lemma throttle_leading_then_trailing:
  "(100 \<le> T \<longrightarrow>
      invocations (throttled_calls [(T, a), (T, b), (T, c)] (throttle 100)) = [(T, a)]
      \<and> (t < T + 100 \<longrightarrow>
           run_timers t (throttled_calls [(T, a), (T, b), (T, c)] (throttle 100)) =
             throttled_calls [(T, a), (T, b), (T, c)] (throttle 100))
      \<and> invocations (run_timers (T + 100) (throttled_calls [(T, a), (T, b), (T, c)] (throttle 100)))
           = [(T, a), (T + 100, c)])
   \<and> (now - lastCallTime s \<ge> interval s \<longrightarrow>
        invocations (throttled now now' args s) = invocations s @ [(now', args)]
        \<and> lastCallTime (throttled now now' args s) = now'
        \<and> timer (throttled now now' args s) = None
        \<and> pendingArgs (throttled now now' args s) = None)
   \<and> (timer s = None \<and> pendingArgs s = None \<and> cs \<noteq> []
        \<and> list_all (\<lambda>c. fst c - lastCallTime s < interval s) cs \<longrightarrow>
        invocations (throttled_calls cs s) = invocations s
        \<and> pendingArgs (throttled_calls cs s) = Some (snd (last cs))
        \<and> timer (throttled_calls cs s) = Some (lastCallTime s + interval s)
        \<and> (t < lastCallTime s + interval s \<longrightarrow>
             run_timers t (throttled_calls cs s) = throttled_calls cs s)
        \<and> (lastCallTime s + interval s \<le> t \<longrightarrow>
             invocations (run_timers t (throttled_calls cs s)) =
               invocations s @ [(lastCallTime s + interval s, snd (last cs))]
             \<and> timer (run_timers t (throttled_calls cs s)) = None
             \<and> pendingArgs (run_timers t (throttled_calls cs s)) = None
             \<and> run_timers t' (run_timers t (throttled_calls cs s)) =
                 run_timers t (throttled_calls cs s)))"
proof -
  have scenario: "100 \<le> T \<longrightarrow>
      invocations (throttled_calls [(T, a), (T, b), (T, c)] (throttle 100)) = [(T, a)]
      \<and> (t < T + 100 \<longrightarrow>
           run_timers t (throttled_calls [(T, a), (T, b), (T, c)] (throttle 100)) =
             throttled_calls [(T, a), (T, b), (T, c)] (throttle 100))
      \<and> invocations (run_timers (T + 100) (throttled_calls [(T, a), (T, b), (T, c)] (throttle 100)))
           = [(T, a), (T + 100, c)]"
  proof
    assume T: "100 \<le> T"
    note three = three_calls_at_once [OF T, of a b c]
    have "run_timers t (throttled_calls [(T, a), (T, b), (T, c)] (throttle 100)) =
             throttled_calls [(T, a), (T, b), (T, c)] (throttle 100)" if "t < T + 100"
      unfolding three(1) using that by (simp add: run_timers_def)
    then have "t < T + 100 \<longrightarrow>
           run_timers t (throttled_calls [(T, a), (T, b), (T, c)] (throttle 100)) =
             throttled_calls [(T, a), (T, b), (T, c)] (throttle 100)" by blast
    moreover have "invocations (throttled_calls [(T, a), (T, b), (T, c)] (throttle 100)) = [(T, a)]"
      unfolding three(1) by simp
    moreover have "invocations (run_timers (T + 100) (throttled_calls [(T, a), (T, b), (T, c)] (throttle 100)))
           = [(T, a), (T + 100, c)]"
      unfolding three(2) by simp
    ultimately show "invocations (throttled_calls [(T, a), (T, b), (T, c)] (throttle 100)) = [(T, a)]
      \<and> (t < T + 100 \<longrightarrow>
           run_timers t (throttled_calls [(T, a), (T, b), (T, c)] (throttle 100)) =
             throttled_calls [(T, a), (T, b), (T, c)] (throttle 100))
      \<and> invocations (run_timers (T + 100) (throttled_calls [(T, a), (T, b), (T, c)] (throttle 100)))
           = [(T, a), (T + 100, c)]"
      by blast
  qed
  have quiescent: "now - lastCallTime s \<ge> interval s \<longrightarrow>
        invocations (throttled now now' args s) = invocations s @ [(now', args)]
        \<and> lastCallTime (throttled now now' args s) = now'
        \<and> timer (throttled now now' args s) = None
        \<and> pendingArgs (throttled now now' args s) = None"
    by (simp add: quiescent_call)
  have coalesce: "timer s = None \<and> pendingArgs s = None \<and> cs \<noteq> []
        \<and> list_all (\<lambda>c. fst c - lastCallTime s < interval s) cs \<longrightarrow>
        invocations (throttled_calls cs s) = invocations s
        \<and> pendingArgs (throttled_calls cs s) = Some (snd (last cs))
        \<and> timer (throttled_calls cs s) = Some (lastCallTime s + interval s)
        \<and> (t < lastCallTime s + interval s \<longrightarrow>
             run_timers t (throttled_calls cs s) = throttled_calls cs s)
        \<and> (lastCallTime s + interval s \<le> t \<longrightarrow>
             invocations (run_timers t (throttled_calls cs s)) =
               invocations s @ [(lastCallTime s + interval s, snd (last cs))]
             \<and> timer (run_timers t (throttled_calls cs s)) = None
             \<and> pendingArgs (run_timers t (throttled_calls cs s)) = None
             \<and> run_timers t' (run_timers t (throttled_calls cs s)) =
                 run_timers t (throttled_calls cs s))"
  proof
    assume h: "timer s = None \<and> pendingArgs s = None \<and> cs \<noteq> []
        \<and> list_all (\<lambda>c. fst c - lastCallTime s < interval s) cs"
    let ?due = "lastCallTime s + interval s"
    let ?s = "throttled_calls cs s"
    from h have e: "?s = s\<lparr>pendingArgs := Some (snd (last cs)), timer := Some ?due\<rparr>"
      by (intro coalesced_calls) simp_all
    then have tm: "timer ?s = Some ?due" and pa: "pendingArgs ?s = Some (snd (last cs))"
      and iv: "invocations ?s = invocations s" by simp_all
    note fire = trailing_fire [OF tm pa]
    have before: "t < ?due \<longrightarrow> run_timers t ?s = ?s" using fire(1) by blast
    have after: "?due \<le> t \<longrightarrow>
             invocations (run_timers t ?s) = invocations s @ [(?due, snd (last cs))]
             \<and> timer (run_timers t ?s) = None
             \<and> pendingArgs (run_timers t ?s) = None
             \<and> run_timers t' (run_timers t ?s) = run_timers t ?s"
      using fire(2) [of t] fire(3) [of t t'] iv by simp
    from tm pa iv before after
    show "invocations ?s = invocations s
        \<and> pendingArgs ?s = Some (snd (last cs))
        \<and> timer ?s = Some ?due
        \<and> (t < ?due \<longrightarrow> run_timers t ?s = ?s)
        \<and> (?due \<le> t \<longrightarrow>
             invocations (run_timers t ?s) = invocations s @ [(?due, snd (last cs))]
             \<and> timer (run_timers t ?s) = None
             \<and> pendingArgs (run_timers t ?s) = None
             \<and> run_timers t' (run_timers t ?s) = run_timers t ?s)"
      by blast
  qed
  from scenario quiescent coalesce show ?thesis by blast
qed


lemma throttle_leading_then_trailing_example:
  "invocations (throttled_calls [(1000, ''a''), (1000, ''b''), (1000, ''c'')] (throttle 100))
     = [(1000, ''a'')]
   \<and> invocations (run_timers (1000 + 100)
         (throttled_calls [(1000, ''a''), (1000, ''b''), (1000, ''c'')] (throttle 100)))
     = [(1000, ''a''), (1000 + 100, ''c'')]
   \<and> invocations (throttled 1100 1100 ''d'' (throttled 1000 1000 ''a'' (throttle 100)))
     = [(1000, ''a''), (1100, ''d'')]
   \<and> run_timers 1050 (throttled_calls [(1000, ''b''), (1040, ''c'')]
         (throttled 1000 1000 ''a'' (throttle 100)))
     = throttled_calls [(1000, ''b''), (1040, ''c'')] (throttled 1000 1000 ''a'' (throttle 100))
   \<and> invocations (run_timers 1100 (throttled_calls [(1000, ''b''), (1040, ''c'')]
         (throttled 1000 1000 ''a'' (throttle 100))))
     = [(1000, ''a''), (1100, ''c'')]"
proof -
  let ?S = "throttled 1000 1000 ''a'' (throttle 100)"
  let ?cs = "[(1000 :: int, ''b''), (1040, ''c'')]"
  have T: "(100 :: int) \<le> 1000" by simp
  have q: "1100 - lastCallTime ?S \<ge> interval ?S" unfolding after_leading_call by simp
  have h: "timer ?S = None \<and> pendingArgs ?S = None \<and> ?cs \<noteq> []
      \<and> list_all (\<lambda>c. fst c - lastCallTime ?S < interval ?S) ?cs"
    unfolding after_leading_call by simp
  have due: "lastCallTime ?S + interval ?S = 1100" unfolding after_leading_call by simp
  have inv: "invocations ?S = [(1000, ''a'')]" unfolding after_leading_call by simp
  note t1 = throttle_leading_then_trailing [where T = 1000 and a = "''a''" and b = "''b''"
      and c = "''c''" and t = 1050 and now = 1100 and now' = 1100 and args = "''d''"
      and s = ?S and cs = ?cs and t' = 1300]
  note t2 = throttle_leading_then_trailing [where T = 1000 and a = "''a''" and b = "''b''"
      and c = "''c''" and t = 1100 and now = 1100 and now' = 1100 and args = "''d''"
      and s = ?S and cs = ?cs and t' = 1300]
  from t1 T have 1: "invocations (throttled_calls [(1000, ''a''), (1000, ''b''), (1000, ''c'')] (throttle 100))
     = [(1000, ''a'')]
     \<and> invocations (run_timers (1000 + 100)
         (throttled_calls [(1000, ''a''), (1000, ''b''), (1000, ''c'')] (throttle 100)))
     = [(1000, ''a''), (1000 + 100, ''c'')]" by blast
  from t1 q have "invocations (throttled 1100 1100 ''d'' ?S) = invocations ?S @ [(1100, ''d'')]"
    by blast
  with inv have 2: "invocations (throttled 1100 1100 ''d'' ?S) = [(1000, ''a''), (1100, ''d'')]"
    by simp
  note c1 = mp [OF conjunct2 [OF conjunct2 [OF t1]] h]
  note c2 = mp [OF conjunct2 [OF conjunct2 [OF t2]] h]
  have b: "(1050 :: int) < lastCallTime ?S + interval ?S" unfolding due by simp
  note before = conjunct1 [OF conjunct2 [OF conjunct2 [OF conjunct2 [OF c1]]]]
  from before b have 3: "run_timers 1050 (throttled_calls ?cs ?S) = throttled_calls ?cs ?S"
    by (rule mp)
  have a: "lastCallTime ?S + interval ?S \<le> (1100 :: int)" unfolding due by simp
  note after = conjunct2 [OF conjunct2 [OF conjunct2 [OF conjunct2 [OF c2]]]]
  from mp [OF after a] have "invocations (run_timers 1100 (throttled_calls ?cs ?S)) =
        invocations ?S @ [(lastCallTime ?S + interval ?S, snd (last ?cs))]" by (rule conjunct1)
  then have 4: "invocations (run_timers 1100 (throttled_calls ?cs ?S)) = [(1000, ''a''), (1100, ''c'')]"
    unfolding due inv by simp
  from 1 2 3 4 show ?thesis by blast
qed

lemma leading_call_deferred:
  assumes "T < max 0 \<lfloor>intervalMs\<rfloor>"
  shows "throttled T T' a (throttle intervalMs) =
           \<lparr> interval = max 0 \<lfloor>intervalMs\<rfloor>, timer = Some (max 0 \<lfloor>intervalMs\<rfloor>),
             lastCallTime = 0, pendingArgs = Some a, invocations = [] \<rparr>"
  using assms by (auto simp: throttled_def throttle_def Let_def)

text \<open>
  Claim C9. The first call in a quiescent period executes synchronously, with its own
  arguments: with \<open>intervalMs = 100\<close>, three calls at one instant invoke the wrapped function
  at once with the first call's arguments and once more, 100 ms later, with the third
  call's. The code departs from it, and from its own description (the leading call
  executes immediately), when the clock reads less than the interval at the first call:
  \<open>lastCallTime\<close> starts at 0 and stands for no invocation, so \<open>elapsed\<close> is below the interval
  and the call is only stored. With the clock at 0 the three calls invoke nothing, and
  the only invocation is the one at 100, with the third call's arguments; the first
  call's arguments are never used. With the clock at 1700000000000 and
  \<open>intervalMs = 10000000000000\<close> the first call invokes nothing either.
\<close>

theorem leading_call_deferred_below_interval:
  "invocations (throttled 0 0 ''a'' (throttle 100)) = []
   \<and> invocations (throttled_calls [(0, ''a''), (0, ''b''), (0, ''c'')] (throttle 100)) = []
   \<and> invocations (run_timers 100
        (throttled_calls [(0, ''a''), (0, ''b''), (0, ''c'')] (throttle 100))) = [(100, ''c'')]
   \<and> throttled 1700000000000 1700000000000 ''a'' (throttle 10000000000000) =
        \<lparr> interval = 10000000000000, timer = Some 10000000000000, lastCallTime = 0,
          pendingArgs = Some ''a'', invocations = [] \<rparr>"
  by (simp add: throttled_def invoke_def clearPending_def throttle_def Let_def
      run_timers_def timer_callback_def)

end
